theory Spec2Isabelle
  imports Main "HOL-Library.Word" "HOL-Library.Signed_Division" "HOL-Library.Sublist"
begin

section \<open>A shallow embedding of \<^verbatim>\<open>src/main/sys_socket.c\<close>\<close>

text \<open>
  The file implements a TCP client socket over the BSD socket calls: a non-blocking
  connect bounded by a timeout, a send loop, and two framed reads (text up to a
  terminator, binary of a fixed length) that share one read buffer.

  The C functions talk to the operating system. Here every system call is answered
  from a reply that the caller of the model supplies, and every system call issued is
  appended to a trace, so that what the code asked of the system, and in which order,
  is part of the result. A loop that issues one call per round takes a list of
  replies; when the list runs out before the loop has finished, the result is
  \<open>None\<close>: the replies given do not determine what the code returns.
\<close>

subsection \<open>Types and constants of the platform\<close>

type_synonym byte = char
type_synonym err_t = int
type_synonym SOCKET = int

text \<open>\<^verbatim>\<open>#define INVALID_SOCKET ((SOCKET) - 1)\<close>\<close>

definition INVALID_SOCKET :: SOCKET where
  "INVALID_SOCKET = - 1"

text \<open>
  The error numbers of \<^verbatim>\<open>errno.h\<close> and the size of the read buffer's array are not
  fixed by the source file; they are parameters of the model.
\<close>

record sysconst =
  ETIMEDOUT :: err_t
  EINPROGRESS :: err_t
  EAGAIN :: err_t
  DATA_SIZE :: nat

datatype SelectSet = SEL_READ | SEL_WRITE | SEL_ERROR

text \<open>
  Modelled from the spec: the declarations of \<^verbatim>\<open>sys_socket.h\<close> (the structs
  \<^verbatim>\<open>SockReadBuffer\<close>, \<^verbatim>\<open>SysSocket\<close> and \<^verbatim>\<open>URL\<close>) are not among the sources. The read
  buffer is a fixed array with a count \<open>position\<close> of the valid bytes at its front;
  the array \<open>data\<close> of \<open>DATA_SIZE\<close> bytes is followed by a filler byte, so that
  index \<open>DATA_SIZE\<close> can be written. The list \<open>data\<close> below holds the array and the
  filler: \<open>DATA_SIZE + 1\<close> bytes.
\<close>

record SockReadBuffer =
  data :: "byte list"
  position :: nat

record SysSocket =
  sockfd :: SOCKET
  readBuffer :: SockReadBuffer

record URL =
  addr :: "32 word"
  port :: "16 word"

subsection \<open>System calls: replies and trace\<close>

datatype event =
    Ev_socket
  | Ev_fcntl SOCKET
  | Ev_connect SOCKET "32 word" "16 word"
  | Ev_select SOCKET SelectSet int int
  | Ev_getsockopt SOCKET
  | Ev_recv SOCKET nat "byte list"
  | Ev_send SOCKET "byte list"
  | Ev_close SOCKET

text \<open>
  \<open>Ev_select fd set sec usec\<close> records the descriptor, the set it was put in and the
  two fields of the \<^verbatim>\<open>timeval\<close>; \<open>Ev_recv fd nbyte bs\<close> the size asked for and the
  bytes the call stored; \<open>Ev_send fd bs\<close> the bytes the call took.
\<close>

record select_reply =
  select_rc :: int
  select_errno :: err_t
  so_error :: "err_t option"

text \<open>
  \<open>select_rc\<close> is what \<^verbatim>\<open>select\<close> returns and \<open>select_errno\<close> the value of
  \<^verbatim>\<open>errno\<close> after it; \<open>so_error\<close> is what \<^verbatim>\<open>getsockopt(SO_ERROR)\<close> stores,
  \<open>None\<close> when that call fails and stores nothing.
\<close>

datatype recv_reply = Recv_Data "byte list" | Recv_Fail err_t

record read_reply =
  sel :: select_reply
  rcv :: recv_reply

record send_reply =
  send_rc :: int
  send_errno :: err_t

record connect_reply =
  socket_rc :: SOCKET
  socket_errno :: err_t
  fcntl_rc :: int
  fcntl_errno :: err_t
  connect_rc :: int
  connect_errno :: err_t
  connect_sel :: select_reply

text \<open>
  \<^verbatim>\<open>recv(fd, buf, nbyte, 0)\<close>: with \<open>Recv_Data bs\<close> the system has the bytes \<open>bs\<close>
  for the caller (none when the peer has closed); it stores at most \<open>nbyte\<close> of them
  and returns their number. With \<open>Recv_Fail e\<close> it returns \<open>-1\<close> and \<^verbatim>\<open>errno\<close> is
  \<open>e\<close>. The result is the return value, the bytes stored and \<^verbatim>\<open>errno\<close>.
\<close>

definition sys_recv :: "recv_reply \<Rightarrow> nat \<Rightarrow> int \<times> byte list \<times> err_t" where
  "sys_recv r nbyte =
     (case r of
        Recv_Data bs \<Rightarrow> (int (length (take nbyte bs)), take nbyte bs, 0)
      | Recv_Fail e \<Rightarrow> (- 1, [], e))"

text \<open>
  \<^verbatim>\<open>send(fd, p, n, 0)\<close> returns \<open>send_rc\<close>, never more than the \<open>n\<close> bytes offered,
  and has taken that many bytes from the front of \<open>p\<close>.
\<close>

definition sys_send :: "send_reply \<Rightarrow> byte list \<Rightarrow> int \<times> byte list \<times> err_t" where
  "sys_send r offered =
     (let n = min (send_rc r) (int (length offered))
      in (n, take (nat n) offered, send_errno r))"

text \<open>C strings: the bytes before the first NUL.\<close>

definition NUL :: byte where
  "NUL = CHR 0x00"

definition c_str :: "byte list \<Rightarrow> byte list" where
  "c_str bs = takeWhile (\<lambda>b. b \<noteq> NUL) bs"

text \<open>\<^verbatim>\<open>strstr\<close>: the offset of the first occurrence of the needle, if any.\<close>

fun strstr :: "byte list \<Rightarrow> byte list \<Rightarrow> nat option" where
  "strstr [] nd = (if nd = [] then Some 0 else None)"
| "strstr (h # hs) nd =
     (if prefix nd (h # hs) then Some 0 else map_option Suc (strstr hs nd))"

subsection \<open>The readiness wait and the raw read\<close>

text \<open>
  \<^verbatim>\<open>socket_get_error\<close>: \<^verbatim>\<open>*errp = 0; getsockopt(..., errp, &len); return *errp == 0;\<close>
  The functions that return \<^verbatim>\<open>*errp == 0\<close> are modelled by the error value alone.
\<close>

definition socket_get_error :: "SOCKET \<Rightarrow> err_t option \<Rightarrow> event list \<Rightarrow> err_t \<times> event list" where
  "socket_get_error fd so tr =
     ((case so of None \<Rightarrow> 0 | Some e \<Rightarrow> e), tr @ [Ev_getsockopt fd])"

text \<open>
  The timeout is a C \<^verbatim>\<open>int\<close>: a \<open>32 word\<close> read as signed. \<^verbatim>\<open>/\<close> and \<^verbatim>\<open>%\<close>
  truncate towards zero (\<open>sdiv\<close>, \<open>smod\<close>); the product is computed in 32 bits.
\<close>

definition tv_sec_of :: "32 word \<Rightarrow> int" where
  "tv_sec_of tmout_ms = sint (word_of_int (sint tmout_ms sdiv 1000) :: 32 word)"

definition tv_usec_of :: "32 word \<Rightarrow> int" where
  "tv_usec_of tmout_ms =
     sint ((word_of_int (sint tmout_ms smod 1000) :: 32 word) * 1000)"

definition socket_select ::
  "sysconst \<Rightarrow> SOCKET \<Rightarrow> SelectSet \<Rightarrow> 32 word \<Rightarrow> select_reply \<Rightarrow> event list
     \<Rightarrow> err_t \<times> event list" where
  "socket_select K fd setId tmout_ms r tr =
     (let tr1 = tr @ [Ev_select fd setId (tv_sec_of tmout_ms) (tv_usec_of tmout_ms)]
      in if select_rc r = 1 then socket_get_error fd (so_error r) tr1
         else if select_rc r = 0 then (ETIMEDOUT K, tr1)
         else (select_errno r, tr1))"

text \<open>
  \<^verbatim>\<open>socket_read\<close> returns the number of bytes read; the model returns it with the
  contents of \<open>buf\<close> after the call, the error value and the trace.
\<close>

definition socket_read ::
  "sysconst \<Rightarrow> SOCKET \<Rightarrow> byte list \<Rightarrow> nat \<Rightarrow> 32 word \<Rightarrow> read_reply \<Rightarrow> event list
     \<Rightarrow> nat \<times> byte list \<times> err_t \<times> event list" where
  "socket_read K fd buf nbyte tmout_ms r tr =
     (case socket_select K fd SEL_READ tmout_ms (sel r) tr of
        (err, tr1) \<Rightarrow>
          if err = 0 then
            (case sys_recv (rcv r) nbyte of
               (rc, bs, errno) \<Rightarrow>
                 let tr2 = tr1 @ [Ev_recv fd nbyte bs]
                 in if rc > 0 then (nat rc, bs @ drop (length bs) buf, err, tr2)
                    else (0, buf, (if rc = 0 then - 1 else errno), tr2))
          else (0, buf, err, tr1))"

subsection \<open>Connect and disconnect\<close>

text \<open>
  \<^verbatim>\<open>socket_set_nonblock\<close> (the POSIX branch): \<^verbatim>\<open>*errp = 0\<close>, then \<^verbatim>\<open>errno\<close> when
  \<^verbatim>\<open>fcntl\<close> returns non-zero.
\<close>

definition socket_set_nonblock :: "SOCKET \<Rightarrow> int \<Rightarrow> err_t \<Rightarrow> event list \<Rightarrow> err_t \<times> event list" where
  "socket_set_nonblock fd rc errno tr =
     ((if rc \<noteq> 0 then errno else 0), tr @ [Ev_fcntl fd])"

definition socket_connect ::
  "sysconst \<Rightarrow> SysSocket \<Rightarrow> URL \<Rightarrow> 32 word \<Rightarrow> connect_reply \<Rightarrow> event list
     \<Rightarrow> SysSocket \<times> err_t \<times> event list" where
  "socket_connect K sock url tmout_ms r tr =
     (let sock1 = sock\<lparr>sockfd := socket_rc r\<rparr>;
          tr1 = tr @ [Ev_socket];
          (err, tr4) =
            (if sockfd sock1 = INVALID_SOCKET then (socket_errno r, tr1)
             else
               (case socket_set_nonblock (sockfd sock1) (fcntl_rc r) (fcntl_errno r) tr1 of
                  (err2, tr2) \<Rightarrow>
                    if err2 = 0 then
                      (let tr3 = tr2 @ [Ev_connect (sockfd sock1) (addr url) (port url)]
                       in if connect_rc r < 0 then
                            (if connect_errno r = EINPROGRESS K \<or> connect_errno r = EAGAIN K
                             then socket_select K (sockfd sock1) SEL_WRITE tmout_ms
                                    (connect_sel r) tr3
                             else (connect_errno r, tr3))
                          else (err2, tr3))
                    else (err2, tr2)))
      in if err \<noteq> 0 \<and> sockfd sock1 \<noteq> INVALID_SOCKET
         then (sock1\<lparr>sockfd := INVALID_SOCKET\<rparr>, err, tr4 @ [Ev_close (sockfd sock1)])
         else (sock1, err, tr4))"

definition socket_disconnect :: "SysSocket \<Rightarrow> event list \<Rightarrow> SysSocket \<times> event list" where
  "socket_disconnect sock tr =
     (if sockfd sock \<noteq> INVALID_SOCKET then (sock, tr @ [Ev_close (sockfd sock)])
      else (sock, tr))"

definition sys_socket_init :: "SysSocket \<Rightarrow> SysSocket" where
  "sys_socket_init sock =
     sock\<lparr>sockfd := INVALID_SOCKET, readBuffer := (readBuffer sock)\<lparr>position := 0\<rparr>\<rparr>"

subsection \<open>Write\<close>

text \<open>
  The loop of \<^verbatim>\<open>socket_write\<close>, from offset \<open>ofs\<close>; \<open>p\<close> is the caller's buffer and
  \<open>len\<close> the length passed. Each round offers the bytes \<open>p[ofs .. len)\<close>. The result
  is the value returned, the error value, the replies left and the trace.
\<close>

fun write_loop ::
  "SOCKET \<Rightarrow> byte list \<Rightarrow> nat \<Rightarrow> nat \<Rightarrow> err_t \<Rightarrow> send_reply list \<Rightarrow> event list
     \<Rightarrow> (bool \<times> err_t \<times> send_reply list \<times> event list) option" where
  "write_loop fd p len ofs err rs tr =
     (if ofs < len then
        (case rs of
           [] \<Rightarrow> None
         | r # rs' \<Rightarrow>
             (case sys_send r (take (len - ofs) (drop ofs p)) of
                (n, taken, errno) \<Rightarrow>
                  if n \<le> 0 then Some (False, errno, rs', tr @ [Ev_send fd taken])
                  else write_loop fd p len (ofs + nat n) err rs' (tr @ [Ev_send fd taken])))
      else Some (True, err, rs, tr))"

definition socket_write ::
  "SysSocket \<Rightarrow> byte list \<Rightarrow> nat \<Rightarrow> send_reply list \<Rightarrow> event list
     \<Rightarrow> (bool \<times> err_t \<times> send_reply list \<times> event list) option" where
  "socket_write sock p len rs tr = write_loop (sockfd sock) p len 0 0 rs tr"

subsection \<open>Delimited text read\<close>

text \<open>
  One round of the loop of \<^verbatim>\<open>socket_read_text\<close> after the refill: the NUL stored
  behind the valid bytes, the search, the copy of \<open>n\<close> bytes to the accumulator and
  the shift of the rest. The accumulator \<^verbatim>\<open>data\<close> is \<open>None\<close> for \<^verbatim>\<open>NULL\<close> and
  otherwise holds its \<^verbatim>\<open>dataSize\<close> bytes. The last component is \<^verbatim>\<open>eos != NULL\<close>.
  The store of the NUL is inside the list whenever \<open>position\<close> is at most
  \<open>DATA_SIZE\<close>; the properties below are stated for such buffers only.
\<close>

definition text_round ::
  "byte list \<Rightarrow> SockReadBuffer \<Rightarrow> byte list option
     \<Rightarrow> SockReadBuffer \<times> byte list option \<times> bool" where
  "text_round terminator rb acc =
     (let d = (data rb)[position rb := NUL];
          eos = strstr (c_str d) (c_str terminator);
          n = (case eos of
                 None \<Rightarrow> position rb
               | Some off \<Rightarrow> off + length (c_str terminator))
      in if n > 0 then
           (let acc' = (case acc of None \<Rightarrow> [] | Some a \<Rightarrow> a) @ take n d;
                pos' = position rb - n;
                d' = (if pos' > 0 then take pos' (drop n d) @ drop pos' d else d)
            in (\<lparr>data = d', position = pos'\<rparr>, Some acc', eos \<noteq> None))
         else (\<lparr>data = d, position = position rb\<rparr>, acc, eos \<noteq> None))"

function read_text_loop ::
  "sysconst \<Rightarrow> SOCKET \<Rightarrow> byte list \<Rightarrow> 32 word \<Rightarrow> SockReadBuffer \<Rightarrow> byte list option
     \<Rightarrow> err_t \<Rightarrow> read_reply list \<Rightarrow> event list
     \<Rightarrow> (SockReadBuffer \<times> byte list option \<times> err_t \<times> read_reply list \<times> event list) option"
  where
  "read_text_loop K fd terminator tmout_ms rb acc err rs tr =
     (if position rb = 0 then
        (case rs of
           [] \<Rightarrow> None
         | r # rs' \<Rightarrow>
             (case socket_read K fd (data rb) (DATA_SIZE K) tmout_ms r tr of
                (n, buf, err1, tr1) \<Rightarrow>
                  if err1 \<noteq> 0
                  then Some (\<lparr>data = buf, position = n\<rparr>, acc, err1, rs', tr1)
                  else
                    (case text_round terminator \<lparr>data = buf, position = n\<rparr> acc of
                       (rb2, acc2, found) \<Rightarrow>
                         if found then Some (rb2, acc2, err1, rs', tr1)
                         else read_text_loop K fd terminator tmout_ms rb2 acc2 err1 rs' tr1)))
      else
        (case text_round terminator rb acc of
           (rb2, acc2, found) \<Rightarrow>
             if found then Some (rb2, acc2, err, rs, tr)
             else read_text_loop K fd terminator tmout_ms rb2 acc2 err rs tr))"
  by pat_completeness auto
termination
proof (relation "measure (\<lambda>(K, fd, terminator, tmout_ms, rb, acc, err, rs, tr).
                   2 * length rs + (if position rb = 0 then 0 else 1))", goal_cases)
  case 1
  show ?case by simp
next
  case 2
  then show ?case by simp
next
  case 3
  then show ?case
    by (auto simp: text_round_def Let_def split: option.splits if_splits)
qed

text \<open>
  \<^verbatim>\<open>socket_read_text\<close>: the loop, then \<^verbatim>\<open>if (*errp != 0) { free(data); data = NULL; }\<close>.
  \<open>err\<close> is the value \<^verbatim>\<open>*errp\<close> holds when the function is called. The result is
  the handle, the pointer returned (\<open>None\<close> for \<^verbatim>\<open>NULL\<close>, otherwise the bytes before
  the closing NUL), the error value, the replies left and the trace.
\<close>

definition socket_read_text ::
  "sysconst \<Rightarrow> SysSocket \<Rightarrow> byte list \<Rightarrow> 32 word \<Rightarrow> err_t \<Rightarrow> read_reply list \<Rightarrow> event list
     \<Rightarrow> (SysSocket \<times> byte list option \<times> err_t \<times> read_reply list \<times> event list) option"
  where
  "socket_read_text K sock terminator tmout_ms err rs tr =
     (case read_text_loop K (sockfd sock) terminator tmout_ms (readBuffer sock) None err rs tr of
        None \<Rightarrow> None
      | Some (rb', acc, err', rs', tr') \<Rightarrow>
          Some (sock\<lparr>readBuffer := rb'\<rparr>, (if err' \<noteq> 0 then None else acc), err', rs', tr'))"

subsection \<open>Fixed-length binary read\<close>

text \<open>
  The loop of \<^verbatim>\<open>socket_read_binary\<close>; \<^verbatim>\<open>dataSize\<close> is the length of the
  accumulator.
\<close>

definition acc_bytes :: "byte list option \<Rightarrow> byte list" where
  "acc_bytes acc = (case acc of None \<Rightarrow> [] | Some a \<Rightarrow> a)"

function read_binary_loop ::
  "sysconst \<Rightarrow> SOCKET \<Rightarrow> nat \<Rightarrow> 32 word \<Rightarrow> SockReadBuffer \<Rightarrow> byte list option
     \<Rightarrow> err_t \<Rightarrow> read_reply list \<Rightarrow> event list
     \<Rightarrow> (SockReadBuffer \<times> byte list option \<times> err_t \<times> read_reply list \<times> event list) option"
  where
  "read_binary_loop K fd expectedSize tmout_ms rb acc err rs tr =
     (if length (acc_bytes acc) < expectedSize then
        (if position rb = 0 then
           (case rs of
              [] \<Rightarrow> None
            | r # rs' \<Rightarrow>
                (let nbytesToRead = min (DATA_SIZE K) (expectedSize - length (acc_bytes acc))
                 in case socket_read K fd (data rb) nbytesToRead tmout_ms r tr of
                      (n, buf, err1, tr1) \<Rightarrow>
                        if err1 \<noteq> 0
                        then Some (\<lparr>data = buf, position = n\<rparr>, acc, err1, rs', tr1)
                        else read_binary_loop K fd expectedSize tmout_ms
                               \<lparr>data = buf, position = 0\<rparr>
                               (Some (acc_bytes acc @ take n buf)) err1 rs' tr1))
         else read_binary_loop K fd expectedSize tmout_ms
                (rb\<lparr>position := 0\<rparr>)
                (Some (acc_bytes acc @ take (position rb) (data rb))) err rs tr)
      else Some (rb, acc, err, rs, tr))"
  by pat_completeness auto
termination
  by (relation "measure (\<lambda>(K, fd, expectedSize, tmout_ms, rb, acc, err, rs, tr).
                  2 * length rs + (if position rb = 0 then 0 else 1))") auto

text \<open>
  \<^verbatim>\<open>socket_read_binary\<close>. The result is the handle, the pointer returned,
  \<^verbatim>\<open>*actualSize\<close>, the error value, the replies left and the trace.
\<close>

definition socket_read_binary ::
  "sysconst \<Rightarrow> SysSocket \<Rightarrow> nat \<Rightarrow> 32 word \<Rightarrow> read_reply list \<Rightarrow> event list
     \<Rightarrow> (SysSocket \<times> byte list option \<times> nat \<times> err_t \<times> read_reply list \<times> event list) option"
  where
  "socket_read_binary K sock expectedSize tmout_ms rs tr =
     (case read_binary_loop K (sockfd sock) expectedSize tmout_ms (readBuffer sock) None 0 rs tr of
        None \<Rightarrow> None
      | Some (rb', acc, err', rs', tr') \<Rightarrow>
          (let data1 = (if err' \<noteq> 0 then None else acc)
           in Some (sock\<lparr>readBuffer := rb'\<rparr>, data1,
                    (case data1 of None \<Rightarrow> 0 | Some a \<Rightarrow> length a), err', rs', tr')))"

subsection \<open>What a call leaves pending, has received and has sent\<close>

text \<open>The valid bytes of the read buffer: offsets \<open>[0, position)\<close>.\<close>

definition pending :: "SockReadBuffer \<Rightarrow> byte list" where
  "pending rb = take (position rb) (data rb)"

text \<open>The bytes that the \<^verbatim>\<open>recv\<close> calls of a trace stored, in order.\<close>

fun recv_bytes :: "event \<Rightarrow> byte list" where
  "recv_bytes (Ev_recv fd nbyte bs) = bs"
| "recv_bytes e = []"

definition received :: "event list \<Rightarrow> byte list" where
  "received tr = concat (map recv_bytes tr)"

text \<open>The bytes that the \<^verbatim>\<open>send\<close> calls of a trace took, in order.\<close>

fun send_bytes :: "event \<Rightarrow> byte list" where
  "send_bytes (Ev_send fd bs) = bs"
| "send_bytes e = []"

definition transmitted :: "event list \<Rightarrow> byte list" where
  "transmitted tr = concat (map send_bytes tr)"

subsection \<open>What the system guarantees, and what the buffer must satisfy\<close>

text \<open>
  The read buffer as the struct declares it: the array with its filler byte, and a
  count of valid bytes that fits the array.
\<close>

definition rb_ok :: "sysconst \<Rightarrow> SockReadBuffer \<Rightarrow> bool" where
  "rb_ok K rb \<longleftrightarrow> length (data rb) = DATA_SIZE K + 1 \<and> position rb \<le> DATA_SIZE K"

text \<open>
  The replies a system can give: \<open>ETIMEDOUT\<close> is an error number and so not 0, a
  \<^verbatim>\<open>select\<close> that returns neither 0 nor 1 has failed and set \<^verbatim>\<open>errno\<close>, and
  \<^verbatim>\<open>getsockopt\<close> on the descriptor that \<^verbatim>\<open>select\<close> reported does store a value.
\<close>

definition select_reply_ok :: "sysconst \<Rightarrow> select_reply \<Rightarrow> bool" where
  "select_reply_ok K s \<longleftrightarrow>
     ETIMEDOUT K \<noteq> 0
     \<and> (select_rc s \<noteq> 0 \<and> select_rc s \<noteq> 1 \<longrightarrow> select_errno s \<noteq> 0)
     \<and> (select_rc s = 1 \<longrightarrow> so_error s \<noteq> None)"

text \<open>A call of \<^verbatim>\<open>socket\<close>, \<^verbatim>\<open>fcntl\<close> or \<^verbatim>\<open>connect\<close> that fails sets \<^verbatim>\<open>errno\<close>.\<close>

definition connect_reply_ok :: "sysconst \<Rightarrow> connect_reply \<Rightarrow> bool" where
  "connect_reply_ok K r \<longleftrightarrow>
     (socket_rc r = INVALID_SOCKET \<longrightarrow> socket_errno r \<noteq> 0)
     \<and> (fcntl_rc r \<noteq> 0 \<longrightarrow> fcntl_errno r \<noteq> 0)
     \<and> (connect_rc r < 0 \<longrightarrow> connect_errno r \<noteq> 0)
     \<and> select_reply_ok K (connect_sel r)"

text \<open>
  What the replies say about the descriptor: it was allocated, it was switched to
  non-blocking mode, and the connection stands, either because \<^verbatim>\<open>connect\<close>
  returned at once without error or because it was in progress and \<^verbatim>\<open>select\<close> then
  reported the descriptor writable with no socket error pending.
\<close>

definition established :: "sysconst \<Rightarrow> connect_reply \<Rightarrow> bool" where
  "established K r \<longleftrightarrow>
     socket_rc r \<noteq> INVALID_SOCKET \<and> fcntl_rc r = 0
     \<and> (0 \<le> connect_rc r
        \<or> (connect_errno r = EINPROGRESS K \<or> connect_errno r = EAGAIN K)
          \<and> select_rc (connect_sel r) = 1 \<and> so_error (connect_sel r) = Some 0)"

text \<open>
  A reply with which \<^verbatim>\<open>socket_read\<close> fails: the wait fails, or the peer has closed,
  or \<^verbatim>\<open>recv\<close> fails.
\<close>

definition read_fails :: "sysconst \<Rightarrow> read_reply \<Rightarrow> bool" where
  "read_fails K r \<longleftrightarrow>
     (if select_rc (sel r) = 1
      then (case so_error (sel r) of None \<Rightarrow> False | Some e \<Rightarrow> e \<noteq> 0)
      else if select_rc (sel r) = 0 then ETIMEDOUT K \<noteq> 0
      else select_errno (sel r) \<noteq> 0)
     \<or> (case rcv r of Recv_Data bs \<Rightarrow> bs = [] | Recv_Fail e \<Rightarrow> e \<noteq> 0)"

subsection \<open>A sequence of read calls\<close>

text \<open>
  A caller that issues text and binary reads one after the other on one handle. Each
  call takes the replies that the call before it left; a text read is entered with
  the error value the caller's variable holds at that moment. The result lists, per
  call, the pointer returned and the error value.
\<close>

datatype read_call = Read_text "byte list" "32 word" err_t | Read_binary nat "32 word"

definition do_read ::
  "sysconst \<Rightarrow> SysSocket \<Rightarrow> read_call \<Rightarrow> read_reply list \<Rightarrow> event list
     \<Rightarrow> (SysSocket \<times> byte list option \<times> err_t \<times> read_reply list \<times> event list) option" where
  "do_read K sock c rs tr =
     (case c of
        Read_text terminator tmout_ms err \<Rightarrow> socket_read_text K sock terminator tmout_ms err rs tr
      | Read_binary expectedSize tmout_ms \<Rightarrow>
          (case socket_read_binary K sock expectedSize tmout_ms rs tr of
             None \<Rightarrow> None
           | Some (sock', out, actual, err', rs', tr') \<Rightarrow> Some (sock', out, err', rs', tr')))"

fun read_session ::
  "sysconst \<Rightarrow> SysSocket \<Rightarrow> read_call list \<Rightarrow> read_reply list \<Rightarrow> event list
     \<Rightarrow> (SysSocket \<times> (byte list option \<times> err_t) list \<times> read_reply list \<times> event list) option"
  where
  "read_session K sock [] rs tr = Some (sock, [], rs, tr)"
| "read_session K sock (c # cs) rs tr =
     (case do_read K sock c rs tr of
        None \<Rightarrow> None
      | Some (sock1, out, err1, rs1, tr1) \<Rightarrow>
          (case read_session K sock1 cs rs1 tr1 of
             None \<Rightarrow> None
           | Some (sock2, outs, rs2, tr2) \<Rightarrow> Some (sock2, (out, err1) # outs, rs2, tr2)))"

text \<open>
  The bytes a call took out of the stream, seen from its result: what it returned
  when the error value is 0; otherwise it returned \<^verbatim>\<open>NULL\<close> and the bytes are dropped.
\<close>

definition accounts_for :: "byte list option \<times> err_t \<Rightarrow> byte list \<Rightarrow> bool" where
  "accounts_for r taken \<longleftrightarrow> (if snd r = 0 then taken = acc_bytes (fst r) else fst r = None)"

subsection \<open>Concrete inputs\<close>

text \<open>
  The error numbers of Linux, and a read buffer of 8 bytes and its filler byte.
\<close>

definition K0 :: sysconst where
  "K0 = \<lparr>ETIMEDOUT = 110, EINPROGRESS = 115, EAGAIN = 11, DATA_SIZE = 8\<rparr>"

definition CR :: byte where
  "CR = CHR 0x0D"

definition LF :: byte where
  "LF = CHR 0x0A"

text \<open>\<^verbatim>\<open>select\<close> reports the descriptor ready and no socket error is pending.\<close>

definition ready :: select_reply where
  "ready = \<lparr>select_rc = 1, select_errno = 0, so_error = Some 0\<rparr>"

text \<open>A receive that delivers the bytes \<open>bs\<close>; with no bytes, the peer has closed.\<close>

definition chunk :: "byte list \<Rightarrow> read_reply" where
  "chunk bs = \<lparr>sel = ready, rcv = Recv_Data bs\<rparr>"

definition peer_closed :: read_reply where
  "peer_closed = chunk []"

text \<open>Nothing arrives before the timeout: \<^verbatim>\<open>select\<close> returns 0.\<close>

definition timed_out :: read_reply where
  "timed_out = \<lparr>sel = \<lparr>select_rc = 0, select_errno = 0, so_error = None\<rparr>, rcv = Recv_Fail 0\<rparr>"

text \<open>A buffer that holds the pending bytes \<open>bs\<close>, and a handle on descriptor 3 with it.\<close>

definition buffer_of :: "byte list \<Rightarrow> SockReadBuffer" where
  "buffer_of bs = \<lparr>data = bs @ replicate (9 - length bs) NUL, position = length bs\<rparr>"

definition handle_of :: "byte list \<Rightarrow> SysSocket" where
  "handle_of bs = \<lparr>sockfd = 3, readBuffer = buffer_of bs\<rparr>"

text \<open>
  A connect in progress that completes, and one that the peer refuses (error 111).
\<close>

definition connect_completes :: connect_reply where
  "connect_completes = \<lparr>socket_rc = 3, socket_errno = 0, fcntl_rc = 0, fcntl_errno = 0,
     connect_rc = - 1, connect_errno = 115, connect_sel = ready\<rparr>"

definition connect_refused :: connect_reply where
  "connect_refused = \<lparr>socket_rc = 3, socket_errno = 0, fcntl_rc = 0, fcntl_errno = 0,
     connect_rc = - 1, connect_errno = 115,
     connect_sel = \<lparr>select_rc = 1, select_errno = 0, so_error = Some 111\<rparr>\<rparr>"

definition localhost :: URL where
  "localhost = \<lparr>addr = 0x7F000001, port = 7783\<rparr>"

section \<open>Properties\<close>

text \<open>
  The equations of the three loops are unfolded by hand, one round at a time.
\<close>

declare write_loop.simps [simp del]
declare read_text_loop.simps [simp del]
declare read_binary_loop.simps [simp del]

subsection \<open>The timeout passed to \<^verbatim>\<open>select\<close>\<close>

lemma sdiv_1000_bound: "\<bar>(k::int) sdiv 1000\<bar> \<le> \<bar>k\<bar> div 1000"
proof -
  have "\<bar>k sdiv 1000\<bar> = \<bar>sgn k\<bar> * (\<bar>k\<bar> div 1000)"
    by (simp add: signed_divide_int_def abs_mult)
  also have "\<dots> \<le> \<bar>k\<bar> div 1000"
    by (cases "k = 0") (simp_all add: abs_sgn_eq)
  finally show ?thesis .
qed

lemma smod_1000_bound: "\<bar>(k::int) smod 1000\<bar> < 1000"
proof -
  have "\<bar>k smod 1000\<bar> = \<bar>sgn k\<bar> * (\<bar>k\<bar> mod 1000)"
    by (simp add: signed_modulo_int_def abs_mult)
  also have "\<dots> \<le> \<bar>k\<bar> mod 1000"
    by (cases "k = 0") (simp_all add: abs_sgn_eq)
  also have "\<dots> < 1000"
    by simp
  finally show ?thesis .
qed

lemma sint_word_of_int_32:
  assumes "- (2 ^ 31) \<le> x" and "x < 2 ^ 31"
  shows "sint (word_of_int x :: 32 word) = x"
  using assms by (simp add: sint_sbintrunc' signed_take_bit_int_eq_self)

text \<open>Neither the quotient nor the product leaves the range of a 32-bit \<^verbatim>\<open>int\<close>.\<close>

lemma tv_sec_of_eq: "tv_sec_of tm = sint tm sdiv 1000"
proof -
  have "- (2 ^ 31) \<le> sint tm" and "sint tm < 2 ^ 31"
    using sint_ge [of tm] sint_lt [of tm] by simp_all
  then have "\<bar>sint tm\<bar> \<le> 2 ^ 31"
    by simp
  then have "\<bar>sint tm\<bar> div 1000 \<le> 2 ^ 31 div 1000"
    by (rule zdiv_mono1) simp
  with sdiv_1000_bound [of "sint tm"]
  have "- (2 ^ 31) \<le> sint tm sdiv 1000" and "sint tm sdiv 1000 < 2 ^ 31"
    by simp_all
  then show ?thesis
    unfolding tv_sec_of_def by (rule sint_word_of_int_32)
qed

lemma tv_usec_of_eq: "tv_usec_of tm = (sint tm smod 1000) * 1000"
proof -
  have "(word_of_int (sint tm smod 1000) :: 32 word) * 1000
          = word_of_int ((sint tm smod 1000) * 1000)"
    by simp
  moreover have "- (2 ^ 31) \<le> (sint tm smod 1000) * 1000"
    and "(sint tm smod 1000) * 1000 < 2 ^ 31"
    using smod_1000_bound [of "sint tm"] by simp_all
  ultimately show ?thesis
    unfolding tv_usec_of_def by (simp only: sint_word_of_int_32)
qed

text \<open>
  For a timeout that is not negative, the two fields are the quotient and the
  remainder of the usual division, and together they are the timeout.
\<close>

lemma tv_of_nonneg:
  assumes "0 \<le> sint tm"
  shows "tv_sec_of tm = sint tm div 1000"
    and "tv_usec_of tm = (sint tm mod 1000) * 1000"
    and "tv_sec_of tm * 1000000 + tv_usec_of tm = sint tm * 1000"
proof -
  show s: "tv_sec_of tm = sint tm div 1000"
    using assms by (simp add: tv_sec_of_eq signed_divide_int_def sgn_if)
  show u: "tv_usec_of tm = (sint tm mod 1000) * 1000"
    using assms by (simp add: tv_usec_of_eq signed_modulo_int_def sgn_if)
  have "sint tm = sint tm div 1000 * 1000 + sint tm mod 1000"
    by simp
  then show "tv_sec_of tm * 1000000 + tv_usec_of tm = sint tm * 1000"
    unfolding s u by linarith
qed

text \<open>
  C8. \<^verbatim>\<open>socket_select\<close> calls \<^verbatim>\<open>select\<close> once, with the descriptor in the set asked
  for and a \<^verbatim>\<open>timeval\<close> of \<open>tmout_ms / 1000\<close> seconds and \<open>(tmout_ms % 1000) * 1000\<close>
  microseconds (C's truncating division and remainder, with no overflow). When
  \<^verbatim>\<open>select\<close> returns 1 the error value is the pending socket error fetched with
  \<^verbatim>\<open>getsockopt\<close> (0 when there is none), when it returns 0 the error value is
  \<open>ETIMEDOUT\<close>, and otherwise it is \<^verbatim>\<open>errno\<close>.
\<close>

theorem socket_select_timeval_and_outcome:
  "socket_select K fd setId tmout_ms r tr =
     ((if select_rc r = 1 then (case so_error r of None \<Rightarrow> 0 | Some e \<Rightarrow> e)
       else if select_rc r = 0 then ETIMEDOUT K
       else select_errno r),
      tr @ [Ev_select fd setId (sint tmout_ms sdiv 1000) ((sint tmout_ms smod 1000) * 1000)]
         @ (if select_rc r = 1 then [Ev_getsockopt fd] else []))"
  by (simp add: socket_select_def socket_get_error_def tv_sec_of_eq tv_usec_of_eq)

subsection \<open>The raw read\<close>

text \<open>
  C7. Let \<open>serr\<close> be the error value of the readiness wait and \<open>rc\<close> what \<^verbatim>\<open>recv\<close>
  returns. When the wait succeeds and \<open>rc = 0\<close>, \<^verbatim>\<open>socket_read\<close> sets the error value
  to the sentinel \<open>-1\<close>; when \<open>rc < 0\<close>, to \<^verbatim>\<open>errno\<close>; when the wait fails, the
  error value is the wait's. In each of these cases the function returns 0, the error
  value is not 0 (a failing \<^verbatim>\<open>recv\<close> sets \<^verbatim>\<open>errno\<close>) and the buffer is untouched.
  Otherwise it returns \<open>rc\<close> with error value 0.
\<close>

theorem socket_read_error_mapping:
  assumes "socket_select K fd SEL_READ tmout_ms (sel r) tr = (serr, tr1)"
    and "sys_recv (rcv r) nbyte = (rc, bs, errno)"
    and "socket_read K fd buf nbyte tmout_ms r tr = (n, buf', err, tr')"
    and "rc < 0 \<Longrightarrow> errno \<noteq> 0"
  shows "(serr = 0 \<and> rc = 0 \<longrightarrow> err = - 1)
       \<and> (serr = 0 \<and> rc < 0 \<longrightarrow> err = errno)
       \<and> (serr \<noteq> 0 \<longrightarrow> err = serr)
       \<and> (\<not> (serr = 0 \<and> rc > 0) \<longrightarrow> n = 0 \<and> err \<noteq> 0 \<and> buf' = buf)
       \<and> (serr = 0 \<and> rc > 0 \<longrightarrow> n = nat rc \<and> err = 0)"
  using assms by (auto simp: socket_read_def Let_def split: if_splits)

theorem socket_read_error_mapping_witness:
  "socket_select K0 3 SEL_READ 50 (sel peer_closed) []
     = (0, [Ev_select 3 SEL_READ 0 50000, Ev_getsockopt 3])
   \<and> sys_recv (rcv peer_closed) 8 = (0, [], 0)
   \<and> fst (socket_read K0 3 (replicate 9 NUL) 8 50 peer_closed []) = 0
   \<and> fst (snd (snd (socket_read K0 3 (replicate 9 NUL) 8 50 peer_closed []))) = - 1"
proof -
  let ?X = "socket_read K0 3 (replicate 9 NUL) 8 50 peer_closed []"
  have s: "socket_select K0 3 SEL_READ 50 (sel peer_closed) []
             = (0, [Ev_select 3 SEL_READ 0 50000, Ev_getsockopt 3])"
    by code_simp
  have r: "sys_recv (rcv peer_closed) 8 = (0, [], 0)"
    by code_simp
  have c: "?X = (fst ?X, fst (snd ?X), fst (snd (snd ?X)), snd (snd (snd ?X)))"
    by simp
  have e: "(0::int) < 0 \<Longrightarrow> (0::err_t) \<noteq> 0"
    by simp
  from socket_read_error_mapping [OF s r c e] s r show ?thesis
    by simp
qed

subsection \<open>Disconnect\<close>

text \<open>On a handle that is not connected, \<^verbatim>\<open>socket_disconnect\<close> does nothing.\<close>

lemma socket_disconnect_invalid:
  "sockfd sock = INVALID_SOCKET \<Longrightarrow> socket_disconnect sock tr = (sock, tr)"
  by (simp add: socket_disconnect_def)

text \<open>
  On a connected handle it closes the descriptor and leaves the field \<open>sockfd\<close> as it
  was, so a second call closes the same descriptor again.
\<close>

lemma socket_disconnect_valid:
  "sockfd sock \<noteq> INVALID_SOCKET \<Longrightarrow>
     socket_disconnect sock tr = (sock, tr @ [Ev_close (sockfd sock)])"
  by (simp add: socket_disconnect_def)

text \<open>
  C3 (the code differs). The claim: disconnect resets the descriptor field to the
  invalid sentinel, and a second disconnect issues no second close. On the handle with
  descriptor 3 the field is still 3 after \<^verbatim>\<open>socket_disconnect\<close>, and two calls close
  descriptor 3 twice.
\<close>

theorem socket_disconnect_twice_closes_twice:
  "socket_disconnect (handle_of []) [] = (handle_of [], [Ev_close 3])
   \<and> sockfd (fst (socket_disconnect (handle_of []) [])) \<noteq> INVALID_SOCKET
   \<and> socket_disconnect (fst (socket_disconnect (handle_of []) []))
        (snd (socket_disconnect (handle_of []) []))
      = (handle_of [], [Ev_close 3, Ev_close 3])"
  by (simp add: socket_disconnect_def handle_of_def INVALID_SOCKET_def)

subsection \<open>Binary read of length 0\<close>

text \<open>
  C10. With expected length 0, \<^verbatim>\<open>socket_read_binary\<close> issues no system call (the
  trace and the replies are as before), leaves the handle and its read buffer as they
  were, sets the error value and the actual length to 0 and returns \<^verbatim>\<open>NULL\<close>.
\<close>

theorem socket_read_binary_zero_length:
  "socket_read_binary K sock 0 tmout_ms rs tr = Some (sock, None, 0, 0, rs, tr)"
  by (simp add: socket_read_binary_def acc_bytes_def read_binary_loop.simps)

subsection \<open>Write\<close>

lemma transmitted_snoc: "transmitted (tr @ [e]) = transmitted tr @ send_bytes e"
  by (simp add: transmitted_def)

lemma offered_length:
  assumes "len \<le> length p"
  shows "length (take (len - ofs) (drop ofs p)) = len - ofs"
  using assms by simp

lemma sys_send_cases:
  assumes "sys_send r (take (len - ofs) (drop ofs p)) = (n, taken, errno)"
    and "len \<le> length p"
  shows "n = min (send_rc r) (int (len - ofs))"
    and "taken = take (nat n) (drop ofs p)" and "errno = send_errno r"
proof -
  define off where "off = take (len - ofs) (drop ofs p)"
  have l: "length off = len - ofs"
    unfolding off_def by (rule offered_length [OF assms(2)])
  from assms(1) have n': "n = min (send_rc r) (int (length off))"
    and t: "taken = take (nat n) off"
    and e: "errno = send_errno r"
    unfolding off_def [symmetric] by (auto simp: sys_send_def Let_def)
  from n' l show n: "n = min (send_rc r) (int (len - ofs))"
    by simp
  then have "nat n \<le> len - ofs"
    by linarith
  with t show "taken = take (nat n) (drop ofs p)"
    unfolding off_def by (simp add: min_absorb1)
  from e show "errno = send_errno r" .
qed

lemma write_loop_done:
  "\<not> ofs < len \<Longrightarrow> write_loop fd p len ofs e rs tr = Some (True, e, rs, tr)"
  by (subst write_loop.simps) simp

lemma write_loop_Nil:
  "ofs < len \<Longrightarrow> write_loop fd p len ofs e [] tr = None"
  by (subst write_loop.simps) simp

lemma write_loop_Cons:
  assumes "ofs < len" and "sys_send r (take (len - ofs) (drop ofs p)) = (n, taken, errno)"
  shows "write_loop fd p len ofs e (r # rs) tr =
          (if n \<le> 0 then Some (False, errno, rs, tr @ [Ev_send fd taken])
           else write_loop fd p len (ofs + nat n) e rs (tr @ [Ev_send fd taken]))"
  using assms by (subst write_loop.simps) simp

lemma write_loop_fail_step:
  assumes "ofs < len" and "send_rc r \<le> 0" and "len \<le> length p"
  shows "write_loop fd p len ofs e (r # rs) tr
           = Some (False, send_errno r, rs, tr @ [Ev_send fd []])"
proof -
  obtain n taken errno where s: "sys_send r (take (len - ofs) (drop ofs p)) = (n, taken, errno)"
    by (metis prod_cases3)
  note c = sys_send_cases [OF s assms(3)]
  from c(1) assms(2) have "n \<le> 0" by simp
  with c(2) have "taken = []" by simp
  with \<open>n \<le> 0\<close> c(3) show ?thesis
    by (simp add: write_loop_Cons [OF assms(1) s])
qed

lemma write_loop_partial_step:
  assumes "ofs < len" and "0 < send_rc r" and "len \<le> length p"
  shows "write_loop fd p len ofs e (r # rs) tr
           = write_loop fd p len (ofs + min (nat (send_rc r)) (len - ofs)) e rs
               (tr @ [Ev_send fd (take (min (nat (send_rc r)) (len - ofs)) (drop ofs p))])"
proof -
  obtain n taken errno where s: "sys_send r (take (len - ofs) (drop ofs p)) = (n, taken, errno)"
    by (metis prod_cases3)
  note c = sys_send_cases [OF s assms(3)]
  from c(1) assms(1,2) have "0 < n" by simp
  from c(1) assms(2) have "nat n = min (nat (send_rc r)) (len - ofs)"
    by linarith
  with \<open>0 < n\<close> c(2) show ?thesis
    by (simp add: write_loop_Cons [OF assms(1) s])
qed


lemma write_loop_result:
  assumes "write_loop fd p len ofs e rs tr = Some (ok, err, rs', tr')"
    and "len \<le> length p" and "ofs \<le> len"
  shows "\<exists>used k. ofs \<le> k \<and> k \<le> len
           \<and> transmitted tr' = transmitted tr @ take (k - ofs) (drop ofs p)
           \<and> (\<forall>u\<in>set used. 0 < send_rc u)
           \<and> (if ok then rs = used @ rs' \<and> k = len \<and> err = e
               else k < len \<and> (\<exists>r. rs = used @ r # rs' \<and> send_rc r \<le> 0 \<and> err = send_errno r))"
  using assms
proof (induction rs arbitrary: ofs tr)
  case Nil
  have nlt: "\<not> ofs < len"
    using Nil.prems(1) write_loop_Nil [of ofs len fd p e tr] by auto
  with Nil.prems write_loop_done [OF nlt, of fd p e "[]" tr]
  have "ok" "err = e" "rs' = []" "tr' = tr" "ofs = len" by auto
  then show ?case
    by (intro exI [of _ "[]"] exI [of _ len]) simp
next
  case (Cons r rs)
  show ?case
  proof (cases "ofs < len")
    case False
    with Cons.prems write_loop_done [OF False, of fd p e "r # rs" tr]
    have "ok" "err = e" "rs' = r # rs" "tr' = tr" "ofs = len" by auto
    then show ?thesis
      by (intro exI [of _ "[]"] exI [of _ len]) simp
  next
    case lt: True
    show ?thesis
    proof (cases "send_rc r \<le> 0")
      case True
      from Cons.prems(1) write_loop_fail_step [OF lt True Cons.prems(2), of fd e rs tr]
      have "\<not> ok" "err = send_errno r" "rs' = rs" "tr' = tr @ [Ev_send fd []]" by simp_all
      with True lt show ?thesis
        by (intro exI [of _ "[]"] exI [of _ ofs]) (simp add: transmitted_snoc)
    next
      case False
      then have pos: "0 < send_rc r" by simp
      define m where "m = min (nat (send_rc r)) (len - ofs)"
      define tr1 where "tr1 = tr @ [Ev_send fd (take m (drop ofs p))]"
      have m: "0 < m" "ofs + m \<le> len" using pos lt by (auto simp: m_def)
      from Cons.prems(1) write_loop_partial_step [OF lt pos Cons.prems(2), of fd e rs tr]
      have "write_loop fd p len (ofs + m) e rs tr1 = Some (ok, err, rs', tr')"
        by (simp add: m_def tr1_def)
      from Cons.IH [OF this Cons.prems(2) m(2)]
      obtain used k where k: "ofs + m \<le> k" "k \<le> len"
        and t: "transmitted tr' = transmitted tr1 @ take (k - (ofs + m)) (drop (ofs + m) p)"
        and u: "\<forall>u\<in>set used. 0 < send_rc u"
        and c: "if ok then rs = used @ rs' \<and> k = len \<and> err = e
                else k < len \<and> (\<exists>r. rs = used @ r # rs' \<and> send_rc r \<le> 0 \<and> err = send_errno r)"
        by blast
      have "take m (drop ofs p) @ take (k - (ofs + m)) (drop (ofs + m) p)
              = take (k - ofs) (drop ofs p)"
      proof -
        have "k - ofs = m + (k - (ofs + m))" using k by simp
        then have "take (k - ofs) (drop ofs p)
                     = take m (drop ofs p) @ take (k - (ofs + m)) (drop m (drop ofs p))"
          by (simp only: take_add)
        then show ?thesis by (simp add: add.commute)
      qed
      with t have t': "transmitted tr' = transmitted tr @ take (k - ofs) (drop ofs p)"
        by (simp add: transmitted_snoc tr1_def)
      from k have k': "ofs \<le> k" by simp
      show ?thesis
      proof (cases ok)
        case True
        with c have "r # rs = (r # used) @ rs'" "k = len" "err = e" by simp_all
        with True k' k(2) t' u pos show ?thesis
          by (intro exI [of _ "r # used"] exI [of _ k]) simp
      next
        case False
        with c obtain r' where "r # rs = (r # used) @ r' # rs'" "k < len"
          "send_rc r' \<le> 0" "err = send_errno r'" by auto
        with False k' k(2) t' u pos show ?thesis
          by (intro exI [of _ "r # used"] exI [of _ k]) auto
      qed
    qed
  qed
qed

lemma write_loop_returns:
  assumes "len - ofs \<le> length rs" and "len \<le> length p"
  shows "write_loop fd p len ofs e rs tr \<noteq> None"
  using assms
proof (induction rs arbitrary: ofs tr)
  case Nil
  then have "\<not> ofs < len" by simp
  then show ?case by (simp add: write_loop_done)
next
  case (Cons r rs)
  show ?case
  proof (cases "ofs < len")
    case False
    then show ?thesis by (simp add: write_loop_done)
  next
    case lt: True
    show ?thesis
    proof (cases "send_rc r \<le> 0")
      case True
      then show ?thesis using write_loop_fail_step [OF lt True Cons.prems(2)] by simp
    next
      case False
      then have pos: "0 < send_rc r" by simp
      define m where "m = min (nat (send_rc r)) (len - ofs)"
      have "len - (ofs + m) \<le> length rs" using Cons.prems(1) pos lt by (auto simp: m_def)
      from Cons.IH [OF this Cons.prems(2)] show ?thesis
        using write_loop_partial_step [OF lt pos Cons.prems(2)] by (simp add: m_def)
    qed
  qed
qed

text \<open>
  C9. Let \<open>p\<close> hold at least \<open>len\<close> bytes. A round of the loop at an offset below
  \<open>len\<close> fails with \<^verbatim>\<open>errno\<close> in the error value when \<^verbatim>\<open>send\<close> returns zero or
  less, and otherwise goes on at the offset advanced by the number of bytes sent.
  When \<^verbatim>\<open>socket_write\<close> returns, it returns true if and only if the bytes sent are
  exactly the first \<open>len\<close> bytes of \<open>p\<close>; then the error value is 0 and every
  \<^verbatim>\<open>send\<close> returned more than zero. It returns false exactly after a \<^verbatim>\<open>send\<close> that
  returned zero or less, with that call's \<^verbatim>\<open>errno\<close> as error value and fewer than
  \<open>len\<close> bytes sent. With \<open>len\<close> replies or more it does return.
\<close>

theorem socket_write_contract:
  assumes "len \<le> length p"
  shows "(ofs < len \<and> send_rc r \<le> 0 \<longrightarrow>
            write_loop fd p len ofs e (r # rs0) tr0
              = Some (False, send_errno r, rs0, tr0 @ [Ev_send fd []]))
       \<and> (ofs < len \<and> 0 < send_rc r \<longrightarrow>
            write_loop fd p len ofs e (r # rs0) tr0
              = write_loop fd p len (ofs + min (nat (send_rc r)) (len - ofs)) e rs0
                  (tr0 @ [Ev_send fd (take (min (nat (send_rc r)) (len - ofs)) (drop ofs p))]))
       \<and> (\<forall>ok err rs' tr'.
            socket_write sock p len rs tr = Some (ok, err, rs', tr') \<longrightarrow>
              (ok \<longleftrightarrow> transmitted tr' = transmitted tr @ take len p)
            \<and> (ok \<longrightarrow> err = 0 \<and> (\<exists>used. rs = used @ rs' \<and> (\<forall>u\<in>set used. 0 < send_rc u)))
            \<and> (\<not> ok \<longrightarrow>
                  (\<exists>used r. rs = used @ r # rs' \<and> (\<forall>u\<in>set used. 0 < send_rc u)
                     \<and> send_rc r \<le> 0 \<and> err = send_errno r)
                \<and> (\<exists>k<len. transmitted tr' = transmitted tr @ take k p)))
       \<and> (len \<le> length rs \<longrightarrow> socket_write sock p len rs tr \<noteq> None)"
proof -
  have fail: "ofs < len \<and> send_rc r \<le> 0 \<longrightarrow>
            write_loop fd p len ofs e (r # rs0) tr0
              = Some (False, send_errno r, rs0, tr0 @ [Ev_send fd []])"
    using write_loop_fail_step [OF _ _ assms] by simp
  have part: "ofs < len \<and> 0 < send_rc r \<longrightarrow>
            write_loop fd p len ofs e (r # rs0) tr0
              = write_loop fd p len (ofs + min (nat (send_rc r)) (len - ofs)) e rs0
                  (tr0 @ [Ev_send fd (take (min (nat (send_rc r)) (len - ofs)) (drop ofs p))])"
    using write_loop_partial_step [OF _ _ assms] by simp
  have ret: "len \<le> length rs \<longrightarrow> socket_write sock p len rs tr \<noteq> None"
    unfolding socket_write_def using write_loop_returns [of len 0 rs p] assms by simp
  have res: "(ok \<longleftrightarrow> transmitted tr' = transmitted tr @ take len p)
            \<and> (ok \<longrightarrow> err = 0 \<and> (\<exists>used. rs = used @ rs' \<and> (\<forall>u\<in>set used. 0 < send_rc u)))
            \<and> (\<not> ok \<longrightarrow>
                  (\<exists>used r. rs = used @ r # rs' \<and> (\<forall>u\<in>set used. 0 < send_rc u)
                     \<and> send_rc r \<le> 0 \<and> err = send_errno r)
                \<and> (\<exists>k<len. transmitted tr' = transmitted tr @ take k p))"
    if "socket_write sock p len rs tr = Some (ok, err, rs', tr')" for ok err rs' tr'
  proof -
    from that have w: "write_loop (sockfd sock) p len 0 0 rs tr = Some (ok, err, rs', tr')"
      by (simp add: socket_write_def)
    from write_loop_result [OF w assms]
    obtain used k where k: "k \<le> len"
      and t: "transmitted tr' = transmitted tr @ take k p"
      and u: "\<forall>u\<in>set used. 0 < send_rc u"
      and c: "if ok then rs = used @ rs' \<and> k = len \<and> err = 0
              else k < len \<and> (\<exists>r. rs = used @ r # rs' \<and> send_rc r \<le> 0 \<and> err = send_errno r)"
      by auto
    have neq: "take k p \<noteq> take len p" if "k < len"
    proof
      assume "take k p = take len p"
      then have "length (take k p) = length (take len p)" by simp
      with that assms show False by simp
    qed
    show ?thesis
    proof (cases ok)
      case True
      with c t u show ?thesis by auto
    next
      case False
      with c have lt: "k < len" by simp
      from False c u have "\<exists>used r. rs = used @ r # rs' \<and> (\<forall>u\<in>set used. 0 < send_rc u)
                     \<and> send_rc r \<le> 0 \<and> err = send_errno r"
        by auto
      moreover from lt t have "\<exists>k<len. transmitted tr' = transmitted tr @ take k p"
        by auto
      ultimately show ?thesis
        using False t neq [OF lt] by simp
    qed
  qed
  from fail part ret res show ?thesis
    by blast
qed

theorem socket_write_contract_witness:
  "5 \<le> length ''hello''
   \<and> socket_write (handle_of []) ''hello'' 5
        [\<lparr>send_rc = 2, send_errno = 0\<rparr>, \<lparr>send_rc = 7, send_errno = 0\<rparr>] []
      = Some (True, 0, [], [Ev_send 3 ''he'', Ev_send 3 ''llo''])
   \<and> transmitted [Ev_send 3 ''he'', Ev_send 3 ''llo''] = transmitted [] @ take 5 ''hello''
   \<and> socket_write (handle_of []) ''hello'' 5
        [\<lparr>send_rc = 2, send_errno = 0\<rparr>, \<lparr>send_rc = - 1, send_errno = 32\<rparr>] []
      = Some (False, 32, [], [Ev_send 3 ''he'', Ev_send 3 []])"
proof -
  have h: "5 \<le> length ''hello''"
    by simp
  have e: "socket_write (handle_of []) ''hello'' 5
             [\<lparr>send_rc = 2, send_errno = 0\<rparr>, \<lparr>send_rc = 7, send_errno = 0\<rparr>] []
           = Some (True, 0, [], [Ev_send 3 ''he'', Ev_send 3 ''llo''])"
    by code_simp
  have f: "socket_write (handle_of []) ''hello'' 5
        [\<lparr>send_rc = 2, send_errno = 0\<rparr>, \<lparr>send_rc = - 1, send_errno = 32\<rparr>] []
      = Some (False, 32, [], [Ev_send 3 ''he'', Ev_send 3 []])"
    by code_simp
  from socket_write_contract [OF h, of 0 undefined 0 0 "[]" "[]" "handle_of []"
      "[\<lparr>send_rc = 2, send_errno = 0\<rparr>, \<lparr>send_rc = 7, send_errno = 0\<rparr>]" "[]"] e
  have "transmitted [Ev_send 3 ''he'', Ev_send 3 ''llo''] = transmitted [] @ take 5 ''hello''"
    by blast
  with h e f show ?thesis
    by blast
qed

subsection \<open>Text read: a terminator split over two receives\<close>

text \<open>
  C1 (the code differs). The claim: with the terminator once in the stream,
  \<^verbatim>\<open>read_text\<close> returns the bytes up to and including it however the stream is cut
  into receives. The stream \<open>A CR LF B\<close> arrives as \<open>A CR\<close> and \<open>LF B\<close>, and the
  terminator is \<open>CR LF\<close>. The first round finds no terminator in \<open>A CR\<close> and moves
  both bytes to the accumulator, the second finds none in \<open>LF B\<close>; the third wait
  times out and \<^verbatim>\<open>socket_read_text\<close> returns \<^verbatim>\<open>NULL\<close> with \<open>ETIMEDOUT\<close>. When
  the same stream arrives in one receive, it returns \<open>A CR LF\<close>.
\<close>

theorem read_text_split_terminator:
  "socket_read_text K0 (handle_of []) [CR, LF] 50 0
     [chunk (''A'' @ [CR]), chunk (LF # ''B''), timed_out] []
   = Some (\<lparr>sockfd = 3, readBuffer = \<lparr>data = LF # ''B'' @ replicate 7 NUL, position = 0\<rparr>\<rparr>,
           None, 110, [],
           [Ev_select 3 SEL_READ 0 50000, Ev_getsockopt 3, Ev_recv 3 8 (''A'' @ [CR]),
            Ev_select 3 SEL_READ 0 50000, Ev_getsockopt 3, Ev_recv 3 8 (LF # ''B''),
            Ev_select 3 SEL_READ 0 50000])
   \<and> socket_read_text K0 (handle_of []) [CR, LF] 50 0 [chunk (''A'' @ [CR, LF] @ ''B'')] []
   = Some (\<lparr>sockfd = 3,
             readBuffer = \<lparr>data = ''B'' @ [CR, LF] @ ''B'' @ replicate 5 NUL, position = 1\<rparr>\<rparr>,
           Some (''A'' @ [CR, LF]), 0, [],
           [Ev_select 3 SEL_READ 0 50000, Ev_getsockopt 3,
            Ev_recv 3 8 (''A'' @ [CR, LF] @ ''B'')])"
  by code_simp

subsection \<open>Binary read: more bytes pending than expected\<close>

text \<open>
  C2 (the code differs). The claim: \<^verbatim>\<open>read_binary\<close> never succeeds with an actual
  length other than the expected one, whatever is pending in the read buffer. A text
  read of the line \<open>OK LF\<close> from a receive of \<open>OK LF abcde\<close> leaves \<open>abcde\<close>
  pending; \<^verbatim>\<open>socket_read_binary\<close> with expected length 3 then returns all five bytes,
  actual length 5 and error value 0.
\<close>

theorem read_binary_returns_more_than_expected:
  "socket_read_text K0 (handle_of []) [LF] 50 0 [chunk (''OK'' @ [LF] @ ''abcde'')] []
     = Some (\<lparr>sockfd = 3, readBuffer = \<lparr>data = ''abcde'' @ ''cde'' @ [NUL], position = 5\<rparr>\<rparr>,
             Some (''OK'' @ [LF]), 0, [],
             [Ev_select 3 SEL_READ 0 50000, Ev_getsockopt 3,
              Ev_recv 3 8 (''OK'' @ [LF] @ ''abcde'')])
   \<and> socket_read_binary K0
        \<lparr>sockfd = 3, readBuffer = \<lparr>data = ''abcde'' @ ''cde'' @ [NUL], position = 5\<rparr>\<rparr>
        3 50 [] []
     = Some (\<lparr>sockfd = 3, readBuffer = \<lparr>data = ''abcde'' @ ''cde'' @ [NUL], position = 0\<rparr>\<rparr>,
             Some ''abcde'', 5, 0, [], [])"
  by code_simp

subsection \<open>Text read: the error value on entry\<close>

text \<open>
  C4 (the code differs). The claim: \<^verbatim>\<open>read_text\<close> sets the error value to 0 also
  when it serves the call from the pending bytes alone. \<^verbatim>\<open>socket_read_text\<close> writes
  the error value only through \<^verbatim>\<open>socket_read\<close>. With \<open>A LF B\<close> pending, terminator
  \<open>LF\<close> and the error value 5 left by an earlier call, it issues no system call,
  takes \<open>A LF\<close> out of the buffer, leaves the error value 5 and, because the error
  value is not 0, frees the line and returns \<^verbatim>\<open>NULL\<close>. Entered with error value 0 it
  returns the line.
\<close>

theorem read_text_keeps_stale_error:
  "socket_read_text K0 (handle_of (''A'' @ [LF] @ ''B'')) [LF] 50 5 [] []
     = Some (\<lparr>sockfd = 3,
               readBuffer = \<lparr>data = ''B'' @ [LF] @ ''B'' @ replicate 6 NUL, position = 1\<rparr>\<rparr>,
             None, 5, [], [])
   \<and> socket_read_text K0 (handle_of (''A'' @ [LF] @ ''B'')) [LF] 50 0 [] []
     = Some (\<lparr>sockfd = 3,
               readBuffer = \<lparr>data = ''B'' @ [LF] @ ''B'' @ replicate 6 NUL, position = 1\<rparr>\<rparr>,
             Some (''A'' @ [LF]), 0, [], [])"
  by code_simp

subsection \<open>Connect\<close>

lemma socket_select_result:
  assumes "select_reply_ok K s" and "socket_select K fd setId tm s tr = (err, tr')"
  shows "\<exists>mid. tr' = tr @ mid \<and> Ev_close fd \<notin> set mid"
    and "err = 0 \<longleftrightarrow> select_rc s = 1 \<and> so_error s = Some 0"
  using assms
  by (auto simp: socket_select_def socket_get_error_def select_reply_ok_def Let_def
           split: if_splits option.splits)

text \<open>
  C5. Let the system keep its word (\<open>connect_reply_ok\<close>: a failing call sets
  \<^verbatim>\<open>errno\<close>, \<open>ETIMEDOUT\<close> is not 0). When \<^verbatim>\<open>socket_connect\<close> returns, either the
  error value is 0 and the handle holds the descriptor that \<^verbatim>\<open>socket\<close> returned,
  which is valid, in non-blocking mode and connected (\<open>established\<close>) and was not
  closed; or the error value is not 0, the connection does not stand and the handle's
  descriptor is \<open>INVALID_SOCKET\<close>: then, if a descriptor was allocated, closing it was
  the last call made and the only close, and if none was allocated the only call
  made was \<^verbatim>\<open>socket\<close>. The read buffer is untouched.
\<close>

theorem socket_connect_outcome:
  assumes "connect_reply_ok K r"
    and "socket_connect K sock url tmout_ms r tr = (sock', err, tr')"
  shows "readBuffer sock' = readBuffer sock
       \<and> (err = 0 \<and> established K r \<and> sockfd sock' = socket_rc r
            \<and> sockfd sock' \<noteq> INVALID_SOCKET
            \<and> (\<exists>mid. tr' = tr @ mid \<and> Ev_close (socket_rc r) \<notin> set mid)
          \<or> err \<noteq> 0 \<and> \<not> established K r \<and> sockfd sock' = INVALID_SOCKET
            \<and> (if socket_rc r = INVALID_SOCKET then tr' = tr @ [Ev_socket]
                else \<exists>mid. tr' = tr @ mid @ [Ev_close (socket_rc r)]
                       \<and> Ev_close (socket_rc r) \<notin> set mid))"
proof (cases "socket_rc r = INVALID_SOCKET")
  case True
  with assms show ?thesis
    by (auto simp: socket_connect_def connect_reply_ok_def established_def Let_def)
next
  case valid: False
  show ?thesis
  proof (cases "fcntl_rc r = 0")
    case False
    with valid assms show ?thesis
      by (auto simp: socket_connect_def socket_set_nonblock_def connect_reply_ok_def
            established_def Let_def)
  next
    case nb: True
    let ?tr3 = "tr @ [Ev_socket, Ev_fcntl (socket_rc r),
                      Ev_connect (socket_rc r) (addr url) (port url)]"
    show ?thesis
    proof (cases "connect_rc r < 0")
      case False
      with valid nb assms show ?thesis
        by (auto simp: socket_connect_def socket_set_nonblock_def connect_reply_ok_def
              established_def Let_def)
    next
      case neg: True
      show ?thesis
      proof (cases "connect_errno r = EINPROGRESS K \<or> connect_errno r = EAGAIN K")
        case False
        with neg valid nb assms show ?thesis
          by (auto simp: socket_connect_def socket_set_nonblock_def connect_reply_ok_def
                established_def Let_def)
      next
        case prog: True
        obtain e4 tr4 where s: "socket_select K (socket_rc r) SEL_WRITE tmout_ms
                                  (connect_sel r) ?tr3 = (e4, tr4)"
          by (metis surj_pair)
        from assms(1) have sok: "select_reply_ok K (connect_sel r)"
          by (simp add: connect_reply_ok_def)
        from socket_select_result [OF sok s]
        obtain mid where mid: "tr4 = ?tr3 @ mid" "Ev_close (socket_rc r) \<notin> set mid"
          and e4: "e4 = 0 \<longleftrightarrow> select_rc (connect_sel r) = 1 \<and> so_error (connect_sel r) = Some 0"
          by blast
        from assms(2) prog neg valid nb s
        have res: "(sock', err, tr') =
                (if e4 \<noteq> 0
                 then (sock\<lparr>sockfd := INVALID_SOCKET\<rparr>, e4, tr4 @ [Ev_close (socket_rc r)])
                 else (sock\<lparr>sockfd := socket_rc r\<rparr>, e4, tr4))"
          by (auto simp: socket_connect_def socket_set_nonblock_def Let_def)
        show ?thesis
        proof (cases "e4 = 0")
          case True
          with res e4 mid valid nb prog show ?thesis
            by (auto simp: established_def)
        next
          case False
          with res e4 mid valid nb prog neg show ?thesis
            by (auto simp: established_def
                  intro!: exI [of _ "[Ev_socket, Ev_fcntl (socket_rc r),
                      Ev_connect (socket_rc r) (addr url) (port url)] @ mid"])
        qed
      qed
    qed
  qed
qed


theorem socket_connect_outcome_witness:
  "connect_reply_ok K0 connect_refused
   \<and> socket_connect K0 (sys_socket_init (handle_of [])) localhost 50 connect_refused []
     = (sys_socket_init (handle_of []), 111,
        [Ev_socket, Ev_fcntl 3, Ev_connect 3 0x7F000001 7783,
         Ev_select 3 SEL_WRITE 0 50000, Ev_getsockopt 3, Ev_close 3])
   \<and> \<not> established K0 connect_refused
   \<and> connect_reply_ok K0 connect_completes
   \<and> socket_connect K0 (sys_socket_init (handle_of [])) localhost 50 connect_completes []
     = (handle_of [], 0,
        [Ev_socket, Ev_fcntl 3, Ev_connect 3 0x7F000001 7783,
         Ev_select 3 SEL_WRITE 0 50000, Ev_getsockopt 3])
   \<and> established K0 connect_completes"
proof -
  have h: "connect_reply_ok K0 connect_refused"
    by code_simp
  have c: "socket_connect K0 (sys_socket_init (handle_of [])) localhost 50 connect_refused []
     = (sys_socket_init (handle_of []), 111,
        [Ev_socket, Ev_fcntl 3, Ev_connect 3 0x7F000001 7783,
         Ev_select 3 SEL_WRITE 0 50000, Ev_getsockopt 3, Ev_close 3])"
    by code_simp
  have h2: "connect_reply_ok K0 connect_completes"
    by code_simp
  have c2: "socket_connect K0 (sys_socket_init (handle_of [])) localhost 50 connect_completes []
     = (handle_of [], 0,
        [Ev_socket, Ev_fcntl 3, Ev_connect 3 0x7F000001 7783,
         Ev_select 3 SEL_WRITE 0 50000, Ev_getsockopt 3])"
    by code_simp
  from socket_connect_outcome [OF h c] have "\<not> established K0 connect_refused"
    by simp
  moreover from socket_connect_outcome [OF h2 c2] have "established K0 connect_completes"
    by simp
  ultimately show ?thesis
    using h c h2 c2 by blast
qed

subsection \<open>The read buffer across calls\<close>

lemma acc_bytes_simps: "acc_bytes None = []" "acc_bytes (Some a) = a"
  by (simp_all add: acc_bytes_def)

lemma received_append: "received (tr @ tr2) = received tr @ received tr2"
  by (simp add: received_def)

lemma c_str_length_le:
  assumes "i < length xs" and "xs ! i = NUL"
  shows "length (c_str xs) \<le> i"
proof (rule ccontr)
  assume "\<not> length (c_str xs) \<le> i"
  then have lt: "i < length (takeWhile (\<lambda>b. b \<noteq> NUL) xs)"
    by (simp add: c_str_def)
  then have "takeWhile (\<lambda>b. b \<noteq> NUL) xs ! i = xs ! i"
    by (rule takeWhile_nth)
  moreover from lt have "takeWhile (\<lambda>b. b \<noteq> NUL) xs ! i \<in> set (takeWhile (\<lambda>b. b \<noteq> NUL) xs)"
    by simp
  then have "takeWhile (\<lambda>b. b \<noteq> NUL) xs ! i \<noteq> NUL"
    by (rule set_takeWhileD [THEN conjunct2])
  ultimately show False
    using assms(2) by simp
qed

lemma strstr_bound: "strstr hs nd = Some off \<Longrightarrow> off + length nd \<le> length hs"
proof (induction hs arbitrary: off)
  case Nil
  then show ?case by (simp split: if_splits)
next
  case (Cons h hs)
  show ?case
  proof (cases "prefix nd (h # hs)")
    case True
    with Cons.prems have "off = 0" by simp
    with prefix_length_le [OF True] show ?thesis by simp
  next
    case False
    with Cons.prems obtain off' where "strstr hs nd = Some off'" "off = Suc off'"
      by auto
    with Cons.IH [of off'] show ?thesis by simp
  qed
qed

lemma text_round_unfold:
  assumes "d = (data rb)[position rb := NUL]"
    and "eos = strstr (c_str d) (c_str terminator)"
    and "n = (case eos of None \<Rightarrow> position rb
               | Some off \<Rightarrow> off + length (c_str terminator))"
  shows "text_round terminator rb acc =
      (if n > 0 then
         (\<lparr>data = (if position rb - n > 0
                    then take (position rb - n) (drop n d) @ drop (position rb - n) d else d),
           position = position rb - n\<rparr>,
          Some (acc_bytes acc @ take n d), eos \<noteq> None)
       else (\<lparr>data = d, position = position rb\<rparr>, acc, eos \<noteq> None))"
  unfolding assms text_round_def Let_def acc_bytes_def by simp

lemma text_round_effect:
  assumes ok: "rb_ok K rb" and r: "text_round terminator rb acc = (rb', acc', found)"
  shows "rb_ok K rb'"
    and "acc_bytes acc' @ pending rb' = acc_bytes acc @ pending rb"
    and "\<not> found \<Longrightarrow> position rb' = 0"
proof -
  define d where "d = (data rb)[position rb := NUL]"
  define eos where "eos = strstr (c_str d) (c_str terminator)"
  define n where "n = (case eos of None \<Rightarrow> position rb
                        | Some off \<Rightarrow> off + length (c_str terminator))"
  from ok have len: "length d = DATA_SIZE K + 1" and pos: "position rb < length d"
    by (simp_all add: rb_ok_def d_def)
  have dpos: "d ! position rb = NUL"
    using pos by (simp add: d_def)
  have n_le: "n \<le> position rb"
  proof (cases eos)
    case None
    then show ?thesis by (simp add: n_def)
  next
    case (Some off)
    then have "off + length (c_str terminator) \<le> length (c_str d)"
      unfolding eos_def by (rule strstr_bound)
    also have "\<dots> \<le> position rb"
      using pos dpos by (rule c_str_length_le)
    finally show ?thesis using Some by (simp add: n_def)
  qed
  have take_d: "take k d = take k (data rb)" if "k \<le> position rb" for k
    using that by (simp add: d_def)
  from r have res: "(rb', acc', found) =
      (if n > 0 then
         (\<lparr>data = (if position rb - n > 0
                    then take (position rb - n) (drop n d) @ drop (position rb - n) d else d),
           position = position rb - n\<rparr>,
          Some (acc_bytes acc @ take n d), eos \<noteq> None)
       else (\<lparr>data = d, position = position rb\<rparr>, acc, eos \<noteq> None))"
    by (simp only: text_round_unfold [OF d_def eos_def n_def])
  show "rb_ok K rb'"
  proof (cases "n > 0")
    case True
    with res have "data rb' = (if position rb - n > 0
                    then take (position rb - n) (drop n d) @ drop (position rb - n) d else d)"
      and p: "position rb' = position rb - n"
      by simp_all
    then have "length (data rb') = length d"
      using pos n_le by (auto simp: min_def)
    with p ok len show ?thesis by (auto simp: rb_ok_def)
  next
    case False
    with res ok len show ?thesis by (simp add: rb_ok_def)
  qed
  show "acc_bytes acc' @ pending rb' = acc_bytes acc @ pending rb"
  proof (cases "n > 0")
    case True
    with res have a: "acc_bytes acc' = acc_bytes acc @ take n d"
      and p: "position rb' = position rb - n"
      and dd: "data rb' = (if position rb - n > 0
                    then take (position rb - n) (drop n d) @ drop (position rb - n) d else d)"
      by (simp_all add: acc_bytes_def)
    have "pending rb' = take (position rb - n) (drop n d)"
      using p dd pos n_le by (auto simp: pending_def min_def)
    then have "take n d @ pending rb' = take (n + (position rb - n)) d"
      by (simp only: take_add)
    also have "\<dots> = take (position rb) (data rb)"
      using n_le by (simp add: take_d)
    finally show ?thesis
      using a by (simp add: pending_def)
  next
    case False
    with res show ?thesis by (simp add: pending_def take_d)
  qed
  show "position rb' = 0" if "\<not> found"
  proof -
    from that res have "eos = None" by (auto split: if_splits)
    then have "n = position rb" by (simp add: n_def)
    with res show ?thesis by (auto split: if_splits)
  qed
qed

lemma socket_select_received:
  "socket_select K fd setId tm s tr = (err, tr') \<Longrightarrow> received tr' = received tr"
  by (auto simp: socket_select_def socket_get_error_def Let_def received_def split: if_splits)

lemma socket_read_effect:
  assumes r: "socket_read K fd buf nbyte tm r tr = (n, buf', err, tr')"
    and nb: "nbyte \<le> length buf"
  shows "length buf' = length buf" and "n \<le> nbyte"
    and "received tr' = received tr @ take n buf'"
    and "err \<noteq> 0 \<Longrightarrow> n = 0"
proof -
  obtain serr tr1 where s: "socket_select K fd SEL_READ tm (sel r) tr = (serr, tr1)"
    by (metis surj_pair)
  note rc = socket_select_received [OF s]
  obtain rc bs errno where v: "sys_recv (rcv r) nbyte = (rc, bs, errno)"
    by (metis prod_cases3)
  then have alt: "rc = int (length bs) \<and> length bs \<le> nbyte \<or> rc = - 1 \<and> bs = []"
    by (auto simp: sys_recv_def split: recv_reply.splits)
  then have bs: "length bs \<le> nbyte" "rc > 0 \<Longrightarrow> nat rc = length bs"
    by auto
  from alt have e: "rc \<le> 0 \<Longrightarrow> bs = []"
    by auto
  from r s v have res: "(n, buf', err, tr') =
     (if serr = 0 then
        (if rc > 0 then (nat rc, bs @ drop (length bs) buf, serr, tr1 @ [Ev_recv fd nbyte bs])
         else (0, buf, (if rc = 0 then - 1 else errno), tr1 @ [Ev_recv fd nbyte bs]))
      else (0, buf, serr, tr1))"
    by (auto simp: socket_read_def Let_def split: if_splits)
  show "length buf' = length buf"
    using res bs nb by (auto split: if_splits)
  show "n \<le> nbyte"
    using res bs by (auto split: if_splits)
  show "received tr' = received tr @ take n buf'"
    using res bs e rc by (auto simp: received_append received_def split: if_splits)
  show "n = 0" if "err \<noteq> 0"
    using res that by (auto split: if_splits)
qed


lemma read_text_loop_pending:
  assumes "position rb \<noteq> 0" and "text_round terminator rb acc = (rb2, acc2, found)"
  shows "read_text_loop K fd terminator tm rb acc err rs tr =
           (if found then Some (rb2, acc2, err, rs, tr)
            else read_text_loop K fd terminator tm rb2 acc2 err rs tr)"
  using assms by (subst read_text_loop.simps) simp

lemma read_text_loop_Nil:
  "position rb = 0 \<Longrightarrow> read_text_loop K fd terminator tm rb acc err [] tr = None"
  by (subst read_text_loop.simps) simp

lemma read_text_loop_Cons:
  assumes "position rb = 0"
    and "socket_read K fd (data rb) (DATA_SIZE K) tm r tr = (n, buf, err1, tr1)"
    and "text_round terminator \<lparr>data = buf, position = n\<rparr> acc = (rb2, acc2, found)"
  shows "read_text_loop K fd terminator tm rb acc err (r # rs) tr =
           (if err1 \<noteq> 0 then Some (\<lparr>data = buf, position = n\<rparr>, acc, err1, rs, tr1)
            else if found then Some (rb2, acc2, err1, rs, tr1)
            else read_text_loop K fd terminator tm rb2 acc2 err1 rs tr1)"
  using assms by (subst read_text_loop.simps) simp

text \<open>The invariant of the loop, first from an empty buffer.\<close>

lemma read_text_loop_empty:
  assumes "read_text_loop K fd terminator tm rb acc err rs tr = Some (rb', acc', err', rs', tr')"
    and "rb_ok K rb" and "position rb = 0"
  shows "rb_ok K rb' \<and> (err' \<noteq> 0 \<longrightarrow> position rb' = 0)
       \<and> (\<exists>new. received tr' = received tr @ new
              \<and> acc_bytes acc' @ pending rb' = acc_bytes acc @ new)"
  using assms
proof (induction rs arbitrary: rb acc err tr)
  case Nil
  then show ?case by (simp add: read_text_loop_Nil)
next
  case (Cons r rs)
  obtain n buf err1 tr1
    where rd: "socket_read K fd (data rb) (DATA_SIZE K) tm r tr = (n, buf, err1, tr1)"
    by (metis prod_cases4)
  from Cons.prems(2) have "DATA_SIZE K \<le> length (data rb)"
    by (simp add: rb_ok_def)
  note e = socket_read_effect [OF rd this]
  let ?rb1 = "\<lparr>data = buf, position = n\<rparr>"
  have ok1: "rb_ok K ?rb1"
    using e(1,2) Cons.prems(2) by (simp add: rb_ok_def)
  have rc1: "received tr1 = received tr @ pending ?rb1"
    using e(3) by (simp add: pending_def)
  obtain rb2 acc2 found
    where tx: "text_round terminator ?rb1 acc = (rb2, acc2, found)"
    by (metis prod_cases3)
  note t = text_round_effect [OF ok1 tx]
  note step = read_text_loop_Cons [OF Cons.prems(3) rd tx, of err rs]
  show ?case
  proof (cases "err1 \<noteq> 0")
    case True
    with step Cons.prems(1) have "rb' = ?rb1" "acc' = acc" "err' = err1" "tr' = tr1"
      by simp_all
    with ok1 rc1 e(4) [OF True] show ?thesis
      by (simp add: pending_def)
  next
    case noerr: False
    show ?thesis
    proof (cases found)
      case True
      with noerr step Cons.prems(1) have "rb' = rb2" "acc' = acc2" "err' = err1" "tr' = tr1"
        by simp_all
      with t(1,2) rc1 noerr show ?thesis
        by simp
    next
      case False
      with noerr step Cons.prems(1)
      have "read_text_loop K fd terminator tm rb2 acc2 err1 rs tr1
              = Some (rb', acc', err', rs', tr')"
        by simp
      from Cons.IH [OF this t(1) t(3) [OF False]]
      obtain new where i: "rb_ok K rb'" "err' \<noteq> 0 \<longrightarrow> position rb' = 0"
        "received tr' = received tr1 @ new"
        "acc_bytes acc' @ pending rb' = acc_bytes acc2 @ new"
        by blast
      from t(2) t(3) [OF False] have "acc_bytes acc2 = acc_bytes acc @ pending ?rb1"
        by (simp add: pending_def)
      with i rc1 show ?thesis
        by (intro conjI exI [of _ "pending ?rb1 @ new"]) simp_all
    qed
  qed
qed

lemma read_text_loop_invariant:
  assumes "read_text_loop K fd terminator tm rb acc err rs tr = Some (rb', acc', err', rs', tr')"
    and "rb_ok K rb"
  shows "rb_ok K rb'
       \<and> (\<exists>new. received tr' = received tr @ new
              \<and> acc_bytes acc' @ pending rb' = acc_bytes acc @ pending rb @ new)"
proof (cases "position rb = 0")
  case True
  with read_text_loop_empty [OF assms True] show ?thesis
    by (simp add: pending_def)
next
  case False
  obtain rb2 acc2 found
    where tx: "text_round terminator rb acc = (rb2, acc2, found)"
    by (metis prod_cases3)
  note t = text_round_effect [OF assms(2) tx]
  note step = read_text_loop_pending [OF False tx, of K fd tm err rs tr]
  show ?thesis
  proof (cases found)
    case True
    with step assms(1) have "rb' = rb2" "acc' = acc2" "tr' = tr"
      by simp_all
    with t(1,2) show ?thesis
      by simp
  next
    case nf: False
    with step assms(1)
    have "read_text_loop K fd terminator tm rb2 acc2 err rs tr
            = Some (rb', acc', err', rs', tr')"
      by simp
    from read_text_loop_empty [OF this t(1) t(3) [OF nf]]
    obtain new where i: "rb_ok K rb'" "received tr' = received tr @ new"
        "acc_bytes acc' @ pending rb' = acc_bytes acc2 @ new"
      by blast
    from t(2) t(3) [OF nf] have "acc_bytes acc2 = acc_bytes acc @ pending rb"
      by (simp add: pending_def)
    with i show ?thesis
      by (intro conjI exI [of _ new]) simp_all
  qed
qed


lemma read_binary_loop_done:
  "\<not> length (acc_bytes acc) < expectedSize \<Longrightarrow>
     read_binary_loop K fd expectedSize tm rb acc err rs tr = Some (rb, acc, err, rs, tr)"
  by (subst read_binary_loop.simps) simp

lemma read_binary_loop_pending:
  assumes "length (acc_bytes acc) < expectedSize" and "position rb \<noteq> 0"
  shows "read_binary_loop K fd expectedSize tm rb acc err rs tr =
           read_binary_loop K fd expectedSize tm (rb\<lparr>position := 0\<rparr>)
             (Some (acc_bytes acc @ pending rb)) err rs tr"
  using assms by (subst read_binary_loop.simps) (simp add: pending_def)

lemma read_binary_loop_Nil:
  assumes "length (acc_bytes acc) < expectedSize" and "position rb = 0"
  shows "read_binary_loop K fd expectedSize tm rb acc err [] tr = None"
  using assms by (subst read_binary_loop.simps) simp

lemma read_binary_loop_Cons:
  assumes "length (acc_bytes acc) < expectedSize" and "position rb = 0"
    and "socket_read K fd (data rb)
           (min (DATA_SIZE K) (expectedSize - length (acc_bytes acc))) tm r tr
         = (n, buf, err1, tr1)"
  shows "read_binary_loop K fd expectedSize tm rb acc err (r # rs) tr =
           (if err1 \<noteq> 0 then Some (\<lparr>data = buf, position = n\<rparr>, acc, err1, rs, tr1)
            else read_binary_loop K fd expectedSize tm \<lparr>data = buf, position = 0\<rparr>
                   (Some (acc_bytes acc @ take n buf)) err1 rs tr1)"
  using assms by (subst read_binary_loop.simps) (simp add: Let_def)

text \<open>
  The invariant of the loop from an empty buffer, entered with error value 0. A loop
  that starts with no more than \<open>expectedSize\<close> bytes never collects more, and the
  error value at the end tells whether \<open>expectedSize\<close> bytes were collected.
\<close>

lemma read_binary_loop_empty:
  assumes "read_binary_loop K fd expectedSize tm rb acc 0 rs tr
             = Some (rb', acc', err', rs', tr')"
    and "rb_ok K rb" and "position rb = 0"
  shows "rb_ok K rb' \<and> position rb' = 0
       \<and> (\<exists>new. received tr' = received tr @ new \<and> acc_bytes acc' = acc_bytes acc @ new)
       \<and> (length (acc_bytes acc) \<le> expectedSize \<longrightarrow> length (acc_bytes acc') \<le> expectedSize)
       \<and> (if err' = 0 then expectedSize \<le> length (acc_bytes acc')
           else length (acc_bytes acc') < expectedSize)"
  using assms
proof (induction rs arbitrary: rb acc tr)
  case Nil
  show ?case
  proof (cases "length (acc_bytes acc) < expectedSize")
    case True
    with Nil show ?thesis by (simp add: read_binary_loop_Nil)
  next
    case False
    with Nil read_binary_loop_done [OF False, of K fd tm rb 0 "[]" tr] show ?thesis
      by auto
  qed
next
  case (Cons r rs)
  show ?case
  proof (cases "length (acc_bytes acc) < expectedSize")
    case False
    with Cons.prems read_binary_loop_done [OF False, of K fd tm rb 0 "r # rs" tr]
    show ?thesis
      by auto
  next
    case lt: True
    define nb where "nb = min (DATA_SIZE K) (expectedSize - length (acc_bytes acc))"
    obtain n buf err1 tr1
      where rd: "socket_read K fd (data rb) nb tm r tr = (n, buf, err1, tr1)"
      by (metis prod_cases4)
    from Cons.prems(2) have "nb \<le> length (data rb)"
      by (simp add: rb_ok_def nb_def)
    note e = socket_read_effect [OF rd this]
    note step = read_binary_loop_Cons [OF lt Cons.prems(3) rd [unfolded nb_def], of 0 rs]
    have okb: "rb_ok K \<lparr>data = buf, position = k\<rparr>" if "k \<le> n" for k
      using e(1,2) Cons.prems(2) that by (simp add: rb_ok_def nb_def)
    show ?thesis
    proof (cases "err1 \<noteq> 0")
      case True
      with step Cons.prems(1)
      have "rb' = \<lparr>data = buf, position = n\<rparr>" "acc' = acc" "err' = err1" "tr' = tr1"
        by simp_all
      with okb [of n] e(3) e(4) [OF True] True lt show ?thesis
        by simp
    next
      case False
      let ?acc1 = "Some (acc_bytes acc @ take n buf)"
      from False step Cons.prems(1)
      have "read_binary_loop K fd expectedSize tm \<lparr>data = buf, position = 0\<rparr> ?acc1 0 rs tr1
              = Some (rb', acc', err', rs', tr')"
        by simp
      from Cons.IH [OF this okb [of 0]]
      obtain new where i: "rb_ok K rb'" "position rb' = 0"
        "received tr' = received tr1 @ new" "acc_bytes acc' = acc_bytes ?acc1 @ new"
        "length (acc_bytes ?acc1) \<le> expectedSize \<longrightarrow> length (acc_bytes acc') \<le> expectedSize"
        "if err' = 0 then expectedSize \<le> length (acc_bytes acc')
         else length (acc_bytes acc') < expectedSize"
        by auto
      have "length (take n buf) \<le> n"
        by simp
      with e(2) lt have "length (acc_bytes acc) + length (take n buf) \<le> expectedSize"
        unfolding nb_def by linarith
      then have l1: "length (acc_bytes ?acc1) \<le> expectedSize"
        by (simp add: acc_bytes_def)
      have a1: "acc_bytes ?acc1 = acc_bytes acc @ take n buf"
        by (simp add: acc_bytes_def)
      show ?thesis
      proof (intro conjI)
        show "rb_ok K rb'" "position rb' = 0" by (fact i)+
        show "\<exists>new. received tr' = received tr @ new \<and> acc_bytes acc' = acc_bytes acc @ new"
          using i(3,4) e(3) a1 by (intro exI [of _ "take n buf @ new"]) simp
        show "length (acc_bytes acc) \<le> expectedSize \<longrightarrow> length (acc_bytes acc') \<le> expectedSize"
          using i(5) l1 by simp
        show "if err' = 0 then expectedSize \<le> length (acc_bytes acc')
              else length (acc_bytes acc') < expectedSize"
          by (fact i(6))
      qed
    qed
  qed
qed

lemma read_binary_loop_invariant:
  assumes "read_binary_loop K fd expectedSize tm rb acc 0 rs tr
             = Some (rb', acc', err', rs', tr')"
    and "rb_ok K rb"
  shows "rb_ok K rb'
       \<and> (\<exists>new. received tr' = received tr @ new
              \<and> acc_bytes acc' @ pending rb' = acc_bytes acc @ pending rb @ new)
       \<and> (length (acc_bytes acc) + position rb \<le> expectedSize
            \<longrightarrow> length (acc_bytes acc') \<le> expectedSize)
       \<and> (if err' = 0 then expectedSize \<le> length (acc_bytes acc')
           else length (acc_bytes acc') < expectedSize)"
proof (cases "length (acc_bytes acc) < expectedSize")
  case False
  with assms read_binary_loop_done [OF False, of K fd tm rb 0 rs tr] show ?thesis
    by auto
next
  case lt: True
  show ?thesis
  proof (cases "position rb = 0")
    case True
    with read_binary_loop_empty [OF assms True] show ?thesis
      by (auto simp: pending_def)
  next
    case False
    let ?rb1 = "rb\<lparr>position := 0\<rparr>"
    let ?acc1 = "Some (acc_bytes acc @ pending rb)"
    from assms(2) have ok1: "rb_ok K ?rb1"
      by (simp add: rb_ok_def)
    from assms(1) read_binary_loop_pending [OF lt False, of K fd tm 0 rs tr]
    have "read_binary_loop K fd expectedSize tm ?rb1 ?acc1 0 rs tr
            = Some (rb', acc', err', rs', tr')"
      by simp
    from read_binary_loop_empty [OF this ok1]
    obtain new where i: "rb_ok K rb'" "position rb' = 0"
        "received tr' = received tr @ new" "acc_bytes acc' = acc_bytes ?acc1 @ new"
        "length (acc_bytes ?acc1) \<le> expectedSize \<longrightarrow> length (acc_bytes acc') \<le> expectedSize"
        "if err' = 0 then expectedSize \<le> length (acc_bytes acc')
         else length (acc_bytes acc') < expectedSize"
      by auto
    have a1: "acc_bytes ?acc1 = acc_bytes acc @ pending rb"
      by (simp add: acc_bytes_def)
    have lp: "length (pending rb) = position rb"
      using assms(2) by (simp add: pending_def rb_ok_def)
    show ?thesis
    proof (intro conjI)
      show "rb_ok K rb'" by (fact i(1))
      show "\<exists>new. received tr' = received tr @ new
              \<and> acc_bytes acc' @ pending rb' = acc_bytes acc @ pending rb @ new"
        using i(2,3,4) a1 by (intro exI [of _ new]) (simp add: pending_def)
      show "length (acc_bytes acc) + position rb \<le> expectedSize
              \<longrightarrow> length (acc_bytes acc') \<le> expectedSize"
        using i(5) a1 lp by simp
      show "if err' = 0 then expectedSize \<le> length (acc_bytes acc')
            else length (acc_bytes acc') < expectedSize"
        by (fact i(6))
    qed
  qed
qed


lemma text_round_not_found:
  assumes "text_round terminator rb acc = (rb', acc', False)"
  shows "position rb' = 0"
  using assms by (auto simp: text_round_def Let_def split: option.splits if_splits)

lemma read_fails_socket_read:
  assumes "read_fails K r" and "socket_read K fd buf nbyte tm r tr = (n, buf', err, tr')"
  shows "err \<noteq> 0"
  using assms
  by (auto simp: read_fails_def socket_read_def socket_select_def socket_get_error_def
        sys_recv_def Let_def split: if_splits option.splits recv_reply.splits)

lemma read_text_loop_returns_empty:
  assumes "\<exists>r\<in>set rs. read_fails K r" and "position rb = 0"
  shows "read_text_loop K fd terminator tm rb acc err rs tr \<noteq> None"
  using assms
proof (induction rs arbitrary: rb acc err tr)
  case Nil
  then show ?case by simp
next
  case (Cons r rs)
  obtain n buf err1 tr1
    where rd: "socket_read K fd (data rb) (DATA_SIZE K) tm r tr = (n, buf, err1, tr1)"
    by (metis prod_cases4)
  obtain rb2 acc2 found
    where tx: "text_round terminator \<lparr>data = buf, position = n\<rparr> acc = (rb2, acc2, found)"
    by (metis prod_cases3)
  note step = read_text_loop_Cons [OF Cons.prems(2) rd tx, of err rs]
  show ?case
  proof (cases "err1 \<noteq> 0 \<or> found")
    case True
    with step show ?thesis by auto
  next
    case False
    then have "\<not> read_fails K r"
      using read_fails_socket_read [OF _ rd] by blast
    with Cons.prems(1) have ex: "\<exists>r\<in>set rs. read_fails K r"
      by simp
    from False tx have "position rb2 = 0"
      using text_round_not_found by simp
    from Cons.IH [OF ex this] False step show ?thesis
      by simp
  qed
qed

lemma read_text_loop_returns:
  assumes "\<exists>r\<in>set rs. read_fails K r"
  shows "read_text_loop K fd terminator tm rb acc err rs tr \<noteq> None"
proof (cases "position rb = 0")
  case True
  with assms show ?thesis by (rule read_text_loop_returns_empty)
next
  case False
  obtain rb2 acc2 found
    where tx: "text_round terminator rb acc = (rb2, acc2, found)"
    by (metis prod_cases3)
  note step = read_text_loop_pending [OF False tx, of K fd tm err rs tr]
  show ?thesis
  proof (cases found)
    case True
    with step show ?thesis by simp
  next
    case nf: False
    with tx have "position rb2 = 0"
      using text_round_not_found by simp
    from read_text_loop_returns_empty [OF assms this] nf step show ?thesis
      by simp
  qed
qed

lemma read_binary_loop_returns_empty:
  assumes "\<exists>r\<in>set rs. read_fails K r" and "position rb = 0"
  shows "read_binary_loop K fd expectedSize tm rb acc err rs tr \<noteq> None"
  using assms
proof (induction rs arbitrary: rb acc err tr)
  case Nil
  then show ?case by simp
next
  case (Cons r rs)
  show ?case
  proof (cases "length (acc_bytes acc) < expectedSize")
    case False
    then show ?thesis by (simp add: read_binary_loop_done)
  next
    case lt: True
    obtain n buf err1 tr1
      where rd: "socket_read K fd (data rb)
                   (min (DATA_SIZE K) (expectedSize - length (acc_bytes acc))) tm r tr
                 = (n, buf, err1, tr1)"
      by (metis prod_cases4)
    note step = read_binary_loop_Cons [OF lt Cons.prems(2) rd, of err rs]
    show ?thesis
    proof (cases "err1 \<noteq> 0")
      case True
      with step show ?thesis by simp
    next
      case False
      then have "\<not> read_fails K r"
        using read_fails_socket_read [OF _ rd] by blast
      with Cons.prems(1) have ex: "\<exists>r\<in>set rs. read_fails K r"
        by simp
      from Cons.IH [OF ex, of "\<lparr>data = buf, position = 0\<rparr>"] False step show ?thesis
        by simp
    qed
  qed
qed

lemma read_binary_loop_returns:
  assumes "\<exists>r\<in>set rs. read_fails K r"
  shows "read_binary_loop K fd expectedSize tm rb acc err rs tr \<noteq> None"
proof (cases "length (acc_bytes acc) < expectedSize")
  case False
  then show ?thesis by (simp add: read_binary_loop_done)
next
  case lt: True
  show ?thesis
  proof (cases "position rb = 0")
    case True
    with assms show ?thesis by (rule read_binary_loop_returns_empty)
  next
    case False
    from read_binary_loop_returns_empty [OF assms, of "rb\<lparr>position := 0\<rparr>"]
      read_binary_loop_pending [OF lt False, of K fd tm err rs tr]
    show ?thesis by simp
  qed
qed

lemma read_text_loop_error_position:
  assumes "read_text_loop K fd terminator tm rb acc 0 rs tr = Some (rb', acc', err', rs', tr')"
    and "rb_ok K rb" and "err' \<noteq> 0"
  shows "position rb' = 0"
proof (cases "position rb = 0")
  case True
  with read_text_loop_empty [OF assms(1,2) True] assms(3) show ?thesis
    by simp
next
  case False
  obtain rb2 acc2 found
    where tx: "text_round terminator rb acc = (rb2, acc2, found)"
    by (metis prod_cases3)
  note t = text_round_effect [OF assms(2) tx]
  note step = read_text_loop_pending [OF False tx, of K fd tm 0 rs tr]
  show ?thesis
  proof (cases found)
    case True
    with step assms(1,3) show ?thesis
      by simp
  next
    case nf: False
    with step assms(1)
    have "read_text_loop K fd terminator tm rb2 acc2 0 rs tr
            = Some (rb', acc', err', rs', tr')"
      by simp
    from read_text_loop_empty [OF this t(1) t(3) [OF nf]] assms(3) show ?thesis
      by simp
  qed
qed

lemma read_binary_loop_error_position:
  assumes "read_binary_loop K fd expectedSize tm rb acc 0 rs tr
             = Some (rb', acc', err', rs', tr')"
    and "rb_ok K rb" and "err' \<noteq> 0"
  shows "position rb' = 0"
proof (cases "length (acc_bytes acc) < expectedSize")
  case False
  with assms(1,3) read_binary_loop_done [OF False, of K fd tm rb 0 rs tr] show ?thesis
    by simp
next
  case lt: True
  show ?thesis
  proof (cases "position rb = 0")
    case True
    with read_binary_loop_empty [OF assms(1,2) True] show ?thesis
      by simp
  next
    case False
    from assms(2) have ok1: "rb_ok K (rb\<lparr>position := 0\<rparr>)"
      by (simp add: rb_ok_def)
    from assms(1) read_binary_loop_pending [OF lt False, of K fd tm 0 rs tr]
    have "read_binary_loop K fd expectedSize tm (rb\<lparr>position := 0\<rparr>)
            (Some (acc_bytes acc @ pending rb)) 0 rs tr
            = Some (rb', acc', err', rs', tr')"
      by simp
    from read_binary_loop_empty [OF this ok1] show ?thesis
      by simp
  qed
qed

text \<open>
  What one call does to the stream: the bytes pending at entry followed by the bytes
  received are the bytes returned, the bytes dropped and the bytes left pending.
\<close>

lemma socket_read_text_effect:
  assumes "rb_ok K (readBuffer sock)"
    and "socket_read_text K sock terminator tm err rs tr = Some (sock1, out1, err1, rs1, tr1)"
  shows "rb_ok K (readBuffer sock1)"
    and "\<exists>new lost. received tr1 = received tr @ new
           \<and> acc_bytes out1 @ lost @ pending (readBuffer sock1)
               = pending (readBuffer sock) @ new
           \<and> (if err1 = 0 then lost = [] else out1 = None)"
    and "err = 0 \<and> err1 \<noteq> 0 \<longrightarrow> position (readBuffer sock1) = 0"
proof -
  from assms(2) obtain rb' acc' where
    l: "read_text_loop K (sockfd sock) terminator tm (readBuffer sock) None err rs tr
          = Some (rb', acc', err1, rs1, tr1)"
    and s: "sock1 = sock\<lparr>readBuffer := rb'\<rparr>" and o: "out1 = (if err1 \<noteq> 0 then None else acc')"
    by (auto simp: socket_read_text_def split: option.splits)
  from read_text_loop_invariant [OF l assms(1)]
  obtain new where ok: "rb_ok K rb'" and r: "received tr1 = received tr @ new"
    and e: "acc_bytes acc' @ pending rb' = pending (readBuffer sock) @ new"
    by (auto simp: acc_bytes_simps)
  from ok s show "rb_ok K (readBuffer sock1)"
    by simp
  show "\<exists>new lost. received tr1 = received tr @ new
           \<and> acc_bytes out1 @ lost @ pending (readBuffer sock1)
               = pending (readBuffer sock) @ new
           \<and> (if err1 = 0 then lost = [] else out1 = None)"
  proof (cases "err1 = 0")
    case True
    with r e s o show ?thesis
      by (intro exI [of _ new] exI [of _ "[]"]) simp
  next
    case False
    with r e s o show ?thesis
      by (intro exI [of _ new] exI [of _ "acc_bytes acc'"]) (simp add: acc_bytes_simps)
  qed
  show "err = 0 \<and> err1 \<noteq> 0 \<longrightarrow> position (readBuffer sock1) = 0"
    using read_text_loop_error_position [OF _ assms(1)] l s by auto
qed

lemma socket_read_binary_effect:
  assumes "rb_ok K (readBuffer sock)"
    and "socket_read_binary K sock expectedSize tm rs tr
           = Some (sock2, out2, actual, err2, rs2, tr2)"
  shows "rb_ok K (readBuffer sock2)"
    and "\<exists>new lost. received tr2 = received tr @ new
           \<and> acc_bytes out2 @ lost @ pending (readBuffer sock2)
               = pending (readBuffer sock) @ new
           \<and> (if err2 = 0 then lost = [] else out2 = None)"
    and "err2 \<noteq> 0 \<longrightarrow> position (readBuffer sock2) = 0"
proof -
  from assms(2) obtain rb' acc' where
    l: "read_binary_loop K (sockfd sock) expectedSize tm (readBuffer sock) None 0 rs tr
          = Some (rb', acc', err2, rs2, tr2)"
    and s: "sock2 = sock\<lparr>readBuffer := rb'\<rparr>" and o: "out2 = (if err2 \<noteq> 0 then None else acc')"
    by (auto simp: socket_read_binary_def Let_def split: option.splits)
  from read_binary_loop_invariant [OF l assms(1)]
  obtain new where ok: "rb_ok K rb'" and r: "received tr2 = received tr @ new"
    and e: "acc_bytes acc' @ pending rb' = pending (readBuffer sock) @ new"
    by (auto simp: acc_bytes_simps)
  from ok s show "rb_ok K (readBuffer sock2)"
    by simp
  show "\<exists>new lost. received tr2 = received tr @ new
           \<and> acc_bytes out2 @ lost @ pending (readBuffer sock2)
               = pending (readBuffer sock) @ new
           \<and> (if err2 = 0 then lost = [] else out2 = None)"
  proof (cases "err2 = 0")
    case True
    with r e s o show ?thesis
      by (intro exI [of _ new] exI [of _ "[]"]) simp
  next
    case False
    with r e s o show ?thesis
      by (intro exI [of _ new] exI [of _ "acc_bytes acc'"]) (simp add: acc_bytes_simps)
  qed
  show "err2 \<noteq> 0 \<longrightarrow> position (readBuffer sock2) = 0"
    using read_binary_loop_error_position [OF l assms(1)] s by auto
qed

lemma do_read_effect:
  assumes "rb_ok K (readBuffer sock)"
    and "do_read K sock c rs tr = Some (sock1, out1, err1, rs1, tr1)"
  shows "rb_ok K (readBuffer sock1)"
    and "\<exists>new lost. received tr1 = received tr @ new
           \<and> acc_bytes out1 @ lost @ pending (readBuffer sock1)
               = pending (readBuffer sock) @ new
           \<and> (if err1 = 0 then lost = [] else out1 = None)"
proof -
  show "rb_ok K (readBuffer sock1)"
  proof (cases c)
    case (Read_text terminator tm err)
    with assms(2) socket_read_text_effect(1) [OF assms(1)] show ?thesis
      by (simp add: do_read_def)
  next
    case (Read_binary expectedSize tm)
    with assms(2) socket_read_binary_effect(1) [OF assms(1)] show ?thesis
      by (auto simp: do_read_def split: option.splits)
  qed
  show "\<exists>new lost. received tr1 = received tr @ new
           \<and> acc_bytes out1 @ lost @ pending (readBuffer sock1)
               = pending (readBuffer sock) @ new
           \<and> (if err1 = 0 then lost = [] else out1 = None)"
  proof (cases c)
    case (Read_text terminator tm err)
    with assms(2) socket_read_text_effect(2) [OF assms(1)] show ?thesis
      by (simp add: do_read_def)
  next
    case (Read_binary expectedSize tm)
    with assms(2) obtain actual where
      "socket_read_binary K sock expectedSize tm rs tr = Some (sock1, out1, actual, err1, rs1, tr1)"
      by (auto simp: do_read_def split: option.splits)
    from socket_read_binary_effect(2) [OF assms(1) this] show ?thesis .
  qed
qed

lemma read_session_effect:
  assumes "read_session K sock cs rs tr = Some (sock', outs, rs', tr')"
    and "rb_ok K (readBuffer sock)"
    and "received tr = pre @ pending (readBuffer sock)"
  shows "rb_ok K (readBuffer sock')
       \<and> (\<exists>takens. list_all2 accounts_for outs takens
             \<and> received tr' = pre @ concat takens @ pending (readBuffer sock'))"
  using assms
proof (induction cs arbitrary: sock rs tr pre outs)
  case Nil
  then show ?case by simp
next
  case (Cons c cs)
  from Cons.prems(1) obtain sock1 out1 err1 rs1 tr1 outs1 where
    d: "do_read K sock c rs tr = Some (sock1, out1, err1, rs1, tr1)"
    and s: "read_session K sock1 cs rs1 tr1 = Some (sock', outs1, rs', tr')"
    and o: "outs = (out1, err1) # outs1"
    by (auto split: option.splits)
  note e = do_read_effect [OF Cons.prems(2) d]
  from e(2) obtain new lost where r: "received tr1 = received tr @ new"
    and q: "acc_bytes out1 @ lost @ pending (readBuffer sock1)
              = pending (readBuffer sock) @ new"
    and a: "if err1 = 0 then lost = [] else out1 = None"
    by blast
  define tk where "tk = acc_bytes out1 @ lost"
  have acc: "accounts_for (out1, err1) tk"
    using a by (auto simp: accounts_for_def tk_def)
  have "received tr1 = (pre @ tk) @ pending (readBuffer sock1)"
    using r q Cons.prems(3) by (simp add: tk_def)
  from Cons.IH [OF s e(1) this]
  obtain takens where ok: "rb_ok K (readBuffer sock')"
    and l: "list_all2 accounts_for outs1 takens"
    and f: "received tr' = (pre @ tk) @ concat takens @ pending (readBuffer sock')"
    by blast
  from l acc o have "list_all2 accounts_for outs (tk # takens)"
    by simp
  moreover from f have "received tr' = pre @ concat (tk # takens) @ pending (readBuffer sock')"
    by simp
  ultimately show ?case
    using ok by blast
qed

text \<open>
  C6 as stated fails: the claim holds the bytes at \<open>[0, position)\<close> to be the bytes
  received and not returned to the caller after a failed call too. From an empty
  buffer, with terminator \<open>LF\<close>, the bytes \<open>AB\<close> arrive and then the peer closes:
  \<^verbatim>\<open>socket_read_text\<close> returns \<^verbatim>\<open>NULL\<close> with error value \<open>-1\<close> and an empty
  buffer. The bytes \<open>AB\<close> were received; they were not returned and are not pending.
\<close>

theorem read_text_failure_drops_received_bytes:
  "rb_ok K0 (readBuffer (handle_of []))
   \<and> socket_read_text K0 (handle_of []) [LF] 50 0 [chunk ''AB'', peer_closed] []
     = Some (\<lparr>sockfd = 3, readBuffer = \<lparr>data = ''AB'' @ replicate 7 NUL, position = 0\<rparr>\<rparr>,
             None, - 1, [],
             [Ev_select 3 SEL_READ 0 50000, Ev_getsockopt 3, Ev_recv 3 8 ''AB'',
              Ev_select 3 SEL_READ 0 50000, Ev_getsockopt 3, Ev_recv 3 8 []])
   \<and> pending (readBuffer (handle_of []))
       @ drop (length (received []))
           (received [Ev_select 3 SEL_READ 0 50000, Ev_getsockopt 3, Ev_recv 3 8 ''AB'',
                      Ev_select 3 SEL_READ 0 50000, Ev_getsockopt 3, Ev_recv 3 8 []])
     \<noteq> acc_bytes None @ pending \<lparr>data = ''AB'' @ replicate 7 NUL, position = 0\<rparr>"
  by code_simp

text \<open>
  C6, amended. Let the read buffer be well formed (\<open>rb_ok\<close>: the array with its
  filler byte, \<open>position\<close> at most \<open>DATA_SIZE\<close>, that is capacity - 1) when
  \<^verbatim>\<open>socket_read_text\<close> or \<^verbatim>\<open>socket_read_binary\<close> is called. Then it is well formed
  when the call returns, whatever the outcome, and the bytes pending at entry followed
  by the bytes received during the call are, in this order, the bytes returned, the
  bytes dropped and the bytes at \<open>[0, position)\<close> on return. A call that ends with
  error value 0 drops nothing. A call that ends with another error value returns
  \<^verbatim>\<open>NULL\<close>; a binary read, and a text read entered with error value 0, then leaves
  \<open>position = 0\<close>: it has dropped every byte that was pending or that it received.

  Over a sequence of calls that starts where \<open>[0, position)\<close> is the end of the
  stream received so far, the stream received after the sequence is what came before
  those pending bytes, then for each call in order the bytes it returned (error
  value 0) or dropped (otherwise), then the bytes at \<open>[0, position)\<close>: the buffer
  holds exactly the bytes received that no call has returned or dropped.

  Either call does return when one of the replies makes \<^verbatim>\<open>socket_read\<close> fail.
\<close>

theorem read_calls_keep_buffer_invariant:
  assumes "rb_ok K (readBuffer sock)"
  shows "(socket_read_text K sock terminator tm err rs tr = Some (sock1, out1, err1, rs1, tr1)
            \<longrightarrow> rb_ok K (readBuffer sock1)
              \<and> (\<exists>new lost. received tr1 = received tr @ new
                     \<and> acc_bytes out1 @ lost @ pending (readBuffer sock1)
                         = pending (readBuffer sock) @ new
                     \<and> (if err1 = 0 then lost = [] else out1 = None))
              \<and> (err = 0 \<and> err1 \<noteq> 0 \<longrightarrow> position (readBuffer sock1) = 0))
       \<and> (socket_read_binary K sock expectedSize tm rs tr
            = Some (sock2, out2, actual, err2, rs2, tr2)
            \<longrightarrow> rb_ok K (readBuffer sock2)
              \<and> (\<exists>new lost. received tr2 = received tr @ new
                     \<and> acc_bytes out2 @ lost @ pending (readBuffer sock2)
                         = pending (readBuffer sock) @ new
                     \<and> (if err2 = 0 then lost = [] else out2 = None))
              \<and> (err2 \<noteq> 0 \<longrightarrow> position (readBuffer sock2) = 0))
       \<and> (read_session K sock calls rs tr = Some (sock3, outs, rs3, tr3)
            \<and> received tr = pre @ pending (readBuffer sock)
            \<longrightarrow> rb_ok K (readBuffer sock3)
              \<and> (\<exists>takens. list_all2 accounts_for outs takens
                     \<and> received tr3 = pre @ concat takens @ pending (readBuffer sock3)))
       \<and> ((\<exists>r\<in>set rs. read_fails K r) \<longrightarrow>
            socket_read_text K sock terminator tm err rs tr \<noteq> None
            \<and> socket_read_binary K sock expectedSize tm rs tr \<noteq> None)"
proof -
  have one_text: "rb_ok K (readBuffer sock1)
              \<and> (\<exists>new lost. received tr1 = received tr @ new
                     \<and> acc_bytes out1 @ lost @ pending (readBuffer sock1)
                         = pending (readBuffer sock) @ new
                     \<and> (if err1 = 0 then lost = [] else out1 = None))
              \<and> (err = 0 \<and> err1 \<noteq> 0 \<longrightarrow> position (readBuffer sock1) = 0)"
    if "socket_read_text K sock terminator tm err rs tr = Some (sock1, out1, err1, rs1, tr1)"
    using socket_read_text_effect [OF assms that] by blast
  have one_binary: "rb_ok K (readBuffer sock2)
              \<and> (\<exists>new lost. received tr2 = received tr @ new
                     \<and> acc_bytes out2 @ lost @ pending (readBuffer sock2)
                         = pending (readBuffer sock) @ new
                     \<and> (if err2 = 0 then lost = [] else out2 = None))
              \<and> (err2 \<noteq> 0 \<longrightarrow> position (readBuffer sock2) = 0)"
    if "socket_read_binary K sock expectedSize tm rs tr
          = Some (sock2, out2, actual, err2, rs2, tr2)"
    using socket_read_binary_effect [OF assms that] by blast
  have many: "rb_ok K (readBuffer sock3)
              \<and> (\<exists>takens. list_all2 accounts_for outs takens
                     \<and> received tr3 = pre @ concat takens @ pending (readBuffer sock3))"
    if "read_session K sock calls rs tr = Some (sock3, outs, rs3, tr3)
          \<and> received tr = pre @ pending (readBuffer sock)"
    using read_session_effect [OF _ assms] that by blast
  have total: "socket_read_text K sock terminator tm err rs tr \<noteq> None
            \<and> socket_read_binary K sock expectedSize tm rs tr \<noteq> None"
    if f: "\<exists>r\<in>set rs. read_fails K r"
  proof
    from read_text_loop_returns [OF f]
    show "socket_read_text K sock terminator tm err rs tr \<noteq> None"
      by (auto simp: socket_read_text_def split: option.splits)
    from read_binary_loop_returns [OF f]
    show "socket_read_binary K sock expectedSize tm rs tr \<noteq> None"
      by (auto simp: socket_read_binary_def Let_def split: option.splits)
  qed
  from one_text one_binary many total show ?thesis
    by blast
qed

text \<open>
  The theorem at a failed call followed by a successful one: \<open>AB\<close> arrives and the
  next wait times out, then \<open>C LF\<close> arrives. The first call returns \<^verbatim>\<open>NULL\<close> with
  \<open>ETIMEDOUT\<close> and drops \<open>AB\<close>, the second returns \<open>C LF\<close>.
\<close>

theorem read_calls_keep_buffer_invariant_witness:
  "rb_ok K0 (readBuffer (handle_of []))
   \<and> received [] = [] @ pending (readBuffer (handle_of []))
   \<and> read_session K0 (handle_of []) [Read_text [LF] 50 0, Read_text [LF] 50 0]
        [chunk ''AB'', timed_out, chunk (''C'' @ [LF])] []
     = Some (\<lparr>sockfd = 3,
               readBuffer = \<lparr>data = ''C'' @ [LF] @ replicate 7 NUL, position = 0\<rparr>\<rparr>,
             [(None, 110), (Some (''C'' @ [LF]), 0)], [],
             [Ev_select 3 SEL_READ 0 50000, Ev_getsockopt 3, Ev_recv 3 8 ''AB'',
              Ev_select 3 SEL_READ 0 50000,
              Ev_select 3 SEL_READ 0 50000, Ev_getsockopt 3, Ev_recv 3 8 (''C'' @ [LF])])
   \<and> rb_ok K0 \<lparr>data = ''C'' @ [LF] @ replicate 7 NUL, position = 0\<rparr>
   \<and> received [Ev_select 3 SEL_READ 0 50000, Ev_getsockopt 3, Ev_recv 3 8 ''AB'',
                Ev_select 3 SEL_READ 0 50000,
                Ev_select 3 SEL_READ 0 50000, Ev_getsockopt 3, Ev_recv 3 8 (''C'' @ [LF])]
     = [] @ concat [''AB'', ''C'' @ [LF]]
          @ pending \<lparr>data = ''C'' @ [LF] @ replicate 7 NUL, position = 0\<rparr>"
proof -
  have h: "rb_ok K0 (readBuffer (handle_of []))"
    by code_simp
  have p: "received [] = [] @ pending (readBuffer (handle_of []))"
    by code_simp
  have e: "read_session K0 (handle_of []) [Read_text [LF] 50 0, Read_text [LF] 50 0]
        [chunk ''AB'', timed_out, chunk (''C'' @ [LF])] []
     = Some (\<lparr>sockfd = 3,
               readBuffer = \<lparr>data = ''C'' @ [LF] @ replicate 7 NUL, position = 0\<rparr>\<rparr>,
             [(None, 110), (Some (''C'' @ [LF]), 0)], [],
             [Ev_select 3 SEL_READ 0 50000, Ev_getsockopt 3, Ev_recv 3 8 ''AB'',
              Ev_select 3 SEL_READ 0 50000,
              Ev_select 3 SEL_READ 0 50000, Ev_getsockopt 3, Ev_recv 3 8 (''C'' @ [LF])])"
    by code_simp
  have c: "received [Ev_select 3 SEL_READ 0 50000, Ev_getsockopt 3, Ev_recv 3 8 ''AB'',
                Ev_select 3 SEL_READ 0 50000,
                Ev_select 3 SEL_READ 0 50000, Ev_getsockopt 3, Ev_recv 3 8 (''C'' @ [LF])]
     = [] @ concat [''AB'', ''C'' @ [LF]]
          @ pending \<lparr>data = ''C'' @ [LF] @ replicate 7 NUL, position = 0\<rparr>"
    by code_simp
  from read_calls_keep_buffer_invariant
         [OF h, THEN conjunct2, THEN conjunct2, THEN conjunct1, THEN mp, OF conjI [OF e p],
          THEN conjunct1]
  have "rb_ok K0 \<lparr>data = ''C'' @ [LF] @ replicate 7 NUL, position = 0\<rparr>"
    by simp
  with h p e c show ?thesis
    by blast
qed

text \<open>
  When no more bytes are pending than the call expects, a binary read that ends with
  error value 0 returns exactly the expected number of bytes, and one that fails
  returns nothing.
\<close>

lemma socket_read_binary_exact:
  assumes "rb_ok K (readBuffer sock)" and "position (readBuffer sock) \<le> expectedSize"
    and "socket_read_binary K sock expectedSize tm rs tr
           = Some (sock', out, actual, err', rs', tr')"
  shows "err' = 0 \<and> actual = expectedSize \<and> length (acc_bytes out) = expectedSize
       \<or> err' \<noteq> 0 \<and> actual = 0 \<and> out = None"
proof -
  from assms(3) obtain rb' acc' where
    l: "read_binary_loop K (sockfd sock) expectedSize tm (readBuffer sock) None 0 rs tr
          = Some (rb', acc', err', rs', tr')"
    and o: "out = (if err' \<noteq> 0 then None else acc')"
    and a: "actual = (case out of None \<Rightarrow> 0 | Some a \<Rightarrow> length a)"
    by (auto simp: socket_read_binary_def Let_def split: option.splits)
  from read_binary_loop_invariant [OF l assms(1)] assms(2)
  have le: "length (acc_bytes acc') \<le> expectedSize"
    and e: "if err' = 0 then expectedSize \<le> length (acc_bytes acc')
            else length (acc_bytes acc') < expectedSize"
    by (simp_all add: acc_bytes_simps)
  from a have a': "actual = length (acc_bytes out)"
    by (simp add: acc_bytes_simps split: option.splits)
  show ?thesis
  proof (cases "err' = 0")
    case True
    with e le o a' show ?thesis by simp
  next
    case False
    with o a' show ?thesis by (simp add: acc_bytes_simps)
  qed
qed

subsection \<open>Text read: a terminator within one receive\<close>

text \<open>
  \<open>strstr\<close> returns the least offset at which the needle starts, and nothing only
  when it starts nowhere.
\<close>

lemma strstr_Some:
  "strstr hs nd = Some off \<Longrightarrow>
     prefix nd (drop off hs) \<and> (\<forall>i<off. \<not> prefix nd (drop i hs))"
proof (induction hs arbitrary: off)
  case Nil
  then show ?case by (simp split: if_splits)
next
  case (Cons h hs)
  show ?case
  proof (cases "prefix nd (h # hs)")
    case True
    with Cons.prems show ?thesis by simp
  next
    case False
    with Cons.prems obtain off' where o: "strstr hs nd = Some off'" "off = Suc off'"
      by auto
    from Cons.IH [OF o(1)] have p: "prefix nd (drop off' hs)"
      and l: "\<forall>i<off'. \<not> prefix nd (drop i hs)"
      by simp_all
    have "\<not> prefix nd (drop i (h # hs))" if "i < off" for i
    proof (cases i)
      case 0
      with False show ?thesis by simp
    next
      case (Suc k)
      with that o(2) l show ?thesis by simp
    qed
    with p o(2) show ?thesis by simp
  qed
qed

lemma strstr_None:
  "strstr hs nd = None \<Longrightarrow> \<not> prefix nd (drop i hs)"
proof (induction hs arbitrary: i)
  case Nil
  then show ?case by (simp split: if_splits)
next
  case (Cons h hs)
  then have np: "\<not> prefix nd (h # hs)" and n: "strstr hs nd = None"
    by (auto split: if_splits)
  show ?case
  proof (cases i)
    case 0
    with np show ?thesis by simp
  next
    case (Suc k)
    with Cons.IH [OF n, of k] show ?thesis by simp
  qed
qed

lemma c_str_no_NUL: "NUL \<notin> set bs \<Longrightarrow> c_str bs = bs"
  unfolding c_str_def by (rule takeWhile_eq_all_conv [THEN iffD2]) auto

lemma c_str_filled:
  assumes "NUL \<notin> set c" and "length c < length buf"
  shows "c_str ((c @ drop (length c) buf)[length c := NUL]) = c"
proof -
  from assms(2) obtain x xs where "drop (length c) buf = x # xs"
    by (cases "drop (length c) buf") simp_all
  then have "(c @ drop (length c) buf)[length c := NUL] = c @ NUL # xs"
    by (simp add: list_update_append)
  moreover have "takeWhile (\<lambda>b. b \<noteq> NUL) (c @ NUL # xs) = c"
    using assms(1) by (subst takeWhile_append2) auto
  ultimately show ?thesis
    by (simp add: c_str_def)
qed

lemma socket_read_chunk:
  assumes "c \<noteq> []" and "length c \<le> nbyte"
  shows "\<exists>tr'. socket_read K fd buf nbyte tm (chunk c) tr
           = (length c, c @ drop (length c) buf, 0, tr')"
  using assms
  by (simp add: socket_read_def socket_select_def socket_get_error_def sys_recv_def
        chunk_def ready_def Let_def)

text \<open>
  What the text read does find: a terminator that lies within one receive. The
  receives \<open>pre\<close> hold no terminator, the receive \<open>c\<close> holds it first at offset
  \<open>off\<close>. Then the loop returns all of \<open>pre\<close> and \<open>c\<close> up to the end of that
  terminator, and the rest of \<open>c\<close> stays pending.
\<close>

lemma read_text_loop_chunks:
  assumes pre: "\<forall>c\<in>set pre. c \<noteq> [] \<and> NUL \<notin> set c \<and> length c \<le> DATA_SIZE K
                  \<and> strstr c terminator = None"
    and c: "c \<noteq> []" "NUL \<notin> set c" "length c \<le> DATA_SIZE K"
    and found: "strstr c terminator = Some off"
    and tnn: "terminator \<noteq> []" "NUL \<notin> set terminator"
    and rb: "rb_ok K rb" "position rb = 0"
  shows "\<exists>rb' tr'.
           read_text_loop K fd terminator tm rb acc err (map chunk pre @ chunk c # rest) tr
             = Some (rb', Some (acc_bytes acc @ concat pre @ take (off + length terminator) c),
                     0, rest, tr')
           \<and> rb_ok K rb' \<and> pending rb' = drop (off + length terminator) c"
  using pre rb
proof (induction pre arbitrary: rb acc err tr)
  case Nil
  let ?buf = "c @ drop (length c) (data rb)"
  let ?rb1 = "\<lparr>data = ?buf, position = length c\<rparr>"
  from Nil.prems(2) c(3) have lb: "length c < length (data rb)"
    by (simp add: rb_ok_def)
  from socket_read_chunk [OF c(1) c(3)]
  obtain tr1 where rd: "socket_read K fd (data rb) (DATA_SIZE K) tm (chunk c) tr
                          = (length c, ?buf, 0, tr1)"
    by blast
  have ok1: "rb_ok K ?rb1"
    using Nil.prems(2) c(3) by (simp add: rb_ok_def)
  obtain rb2 acc2 fnd where tx: "text_round terminator ?rb1 acc = (rb2, acc2, fnd)"
    by (metis prod_cases3)
  have cs: "c_str (?buf[length c := NUL]) = c"
    using c(2) lb by (rule c_str_filled)
  define n where "n = off + length terminator"
  have n: "0 < n" "n \<le> length c"
    using tnn(1) strstr_bound [OF found] by (simp_all add: n_def)
  have u: "text_round terminator ?rb1 acc =
      (\<lparr>data = (if length c - n > 0
                 then take (length c - n) (drop n (?buf[length c := NUL]))
                        @ drop (length c - n) (?buf[length c := NUL])
                 else ?buf[length c := NUL]),
         position = length c - n\<rparr>,
       Some (acc_bytes acc @ take n (?buf[length c := NUL])), True)"
    using text_round_unfold [of "?buf[length c := NUL]" ?rb1
        "strstr (c_str (?buf[length c := NUL])) (c_str terminator)" terminator n acc]
      n(1) found
    by (simp add: cs c_str_no_NUL [OF tnn(2)] n_def)
  with tx have f: "fnd" and a2: "acc2 = Some (acc_bytes acc @ take n c)"
    using n(2) by auto
  note t = text_round_effect [OF ok1 tx]
  from t(2) a2 have "take n c @ pending rb2 = c"
    by (simp add: acc_bytes_simps pending_def)
  then have p2: "pending rb2 = drop n c"
    by (metis append_eq_conv_conj append_take_drop_id)
  from read_text_loop_Cons [OF Nil.prems(3) rd tx, of err rest] f a2 t(1) p2
  show ?case
    by (simp add: n_def)
next
  case (Cons p pre)
  then have p: "p \<noteq> []" "NUL \<notin> set p" "length p \<le> DATA_SIZE K"
    "strstr p terminator = None"
    and pre': "\<forall>c\<in>set pre. c \<noteq> [] \<and> NUL \<notin> set c \<and> length c \<le> DATA_SIZE K
                  \<and> strstr c terminator = None"
    by simp_all
  let ?buf = "p @ drop (length p) (data rb)"
  let ?rb1 = "\<lparr>data = ?buf, position = length p\<rparr>"
  from Cons.prems(2) p(3) have lb: "length p < length (data rb)"
    by (simp add: rb_ok_def)
  from socket_read_chunk [OF p(1) p(3)]
  obtain tr1 where rd: "socket_read K fd (data rb) (DATA_SIZE K) tm (chunk p) tr
                          = (length p, ?buf, 0, tr1)"
    by blast
  have ok1: "rb_ok K ?rb1"
    using Cons.prems(2) p(3) by (simp add: rb_ok_def)
  obtain rb2 acc2 fnd where tx: "text_round terminator ?rb1 acc = (rb2, acc2, fnd)"
    by (metis prod_cases3)
  have cs: "c_str (?buf[length p := NUL]) = p"
    using p(2) lb by (rule c_str_filled)
  have u: "text_round terminator ?rb1 acc =
      (\<lparr>data = ?buf[length p := NUL], position = 0\<rparr>,
       Some (acc_bytes acc @ take (length p) (?buf[length p := NUL])), False)"
    using text_round_unfold [of "?buf[length p := NUL]" ?rb1
        "strstr (c_str (?buf[length p := NUL])) (c_str terminator)" terminator "length p" acc]
      p(1,4)
    by (simp add: cs c_str_no_NUL [OF tnn(2)])
  with tx have f: "\<not> fnd" and a2: "acc2 = Some (acc_bytes acc @ p)"
    and r2: "position rb2 = 0"
    by auto
  note t = text_round_effect [OF ok1 tx]
  from Cons.IH [OF pre' t(1) r2, of acc2 0 tr1]
  obtain rb' tr' where
    "read_text_loop K fd terminator tm rb2 acc2 0 (map chunk pre @ chunk c # rest) tr1
       = Some (rb', Some (acc_bytes acc2 @ concat pre @ take (off + length terminator) c),
               0, rest, tr')"
    "rb_ok K rb'" "pending rb' = drop (off + length terminator) c"
    by blast
  with read_text_loop_Cons [OF Cons.prems(3) rd tx, of err "map chunk pre @ chunk c # rest"]
    f a2
  show ?case
    by (simp add: acc_bytes_simps)
qed


lemma socket_read_text_chunks:
  assumes "\<forall>c\<in>set pre. c \<noteq> [] \<and> NUL \<notin> set c \<and> length c \<le> DATA_SIZE K
             \<and> strstr c terminator = None"
    and "c \<noteq> []" and "NUL \<notin> set c" and "length c \<le> DATA_SIZE K"
    and "strstr c terminator = Some off"
    and "terminator \<noteq> []" and "NUL \<notin> set terminator"
    and "rb_ok K (readBuffer sock)" and "position (readBuffer sock) = 0"
  shows "\<exists>sock' tr'.
           socket_read_text K sock terminator tm err (map chunk pre @ chunk c # rest) tr
             = Some (sock', Some (concat pre @ take (off + length terminator) c), 0, rest, tr')
           \<and> pending (readBuffer sock') = drop (off + length terminator) c"
proof -
  from read_text_loop_chunks [OF assms, of "sockfd sock" tm None err rest tr]
  obtain rb' tr' where
    "read_text_loop K (sockfd sock) terminator tm (readBuffer sock) None err
       (map chunk pre @ chunk c # rest) tr
     = Some (rb', Some (concat pre @ take (off + length terminator) c), 0, rest, tr')"
    "pending rb' = drop (off + length terminator) c"
    by (auto simp: acc_bytes_simps)
  then show ?thesis
    by (simp add: socket_read_text_def)
qed

end
